theory Spec2Isabelle
  imports Main
begin

section \<open>Strings as the extractor sees them\<close>

text \<open>
  The three applications (\<^verbatim>\<open>app.py\<close>, \<^verbatim>\<open>app1.py\<close>, \<^verbatim>\<open>app2.py\<close>) turn the text
  answered by the language model into question dictionaries with Python's \<^verbatim>\<open>re\<close>
  module.  A Python string is modelled as a \<^typ>\<open>string\<close>; a \<^typ>\<open>char\<close> stands for
  the code point of the same number, so the model covers the code points 0 to 255.

  \<^verbatim>\<open>\s\<close> and \<^verbatim>\<open>str.strip()\<close> use the same class of white space; below 256 it is
  TAB, LF, VT, FF, CR, the separators 0x1C to 0x1F, the blank, NEL (0x85) and the
  no-break space (0xA0).  \<^verbatim>\<open>\d\<close> is a decimal digit; below 256 these are 0 to 9.
\<close>

definition is_space :: "char \<Rightarrow> bool" where
  "is_space c = (c \<in> set [CHR 0x09, CHR 0x0A, CHR 0x0B, CHR 0x0C, CHR 0x0D,
                           CHR 0x1C, CHR 0x1D, CHR 0x1E, CHR 0x1F, CHR 0x20,
                           CHR 0x85, CHR 0xA0])"

definition is_digit :: "char \<Rightarrow> bool" where
  "is_digit c = (c \<in> set ''0123456789'')"

text \<open>
  The simple lower-case mapping that \<^verbatim>\<open>re.IGNORECASE\<close> applies to a character:
  A to Z and the Latin-1 capitals 0xC0 to 0xDE (without the multiplication sign 0xD7)
  move up by 32, every other code point below 256 stays.
\<close>

definition is_upper :: "char \<Rightarrow> bool" where
  "is_upper c =
     (let n = (of_char c :: nat)
      in (65 \<le> n \<and> n \<le> 90) \<or> (192 \<le> n \<and> n \<le> 222 \<and> n \<noteq> 215))"

definition py_lower :: "char \<Rightarrow> char" where
  "py_lower c = (if is_upper c then char_of ((of_char c :: nat) + 32) else c)"

text \<open>\<^verbatim>\<open>s.strip()\<close>, \<^verbatim>\<open>sep.join(xs)\<close>, \<^verbatim>\<open>sub in s\<close>, \<^verbatim>\<open>s.replace(old, new)\<close> and
  \<^verbatim>\<open>s.split(c)\<close> for a separator of one character.\<close>

definition strip :: "string \<Rightarrow> string" where
  "strip s = rev (dropWhile is_space (rev (dropWhile is_space s)))"

fun join :: "string \<Rightarrow> string list \<Rightarrow> string" where
  "join sep [] = []"
| "join sep [x] = x"
| "join sep (x # y # ys) = x @ sep @ join sep (y # ys)"

fun contains :: "string \<Rightarrow> string \<Rightarrow> bool" where
  "contains sub [] = (sub = [])"
| "contains sub (c # cs) = (take (length sub) (c # cs) = sub \<or> contains sub cs)"

function replace :: "string \<Rightarrow> string \<Rightarrow> string \<Rightarrow> string" where
  "replace old new s =
     (if s = [] \<or> old = [] then s
      else if take (length old) s = old then new @ replace old new (drop (length old) s)
      else hd s # replace old new (tl s))"
  by pat_completeness auto
termination
  by (relation "measure (\<lambda>(old, new, s). length s)") auto

declare replace.simps [simp del]

fun split_on :: "char \<Rightarrow> string \<Rightarrow> string list" where
  "split_on sep [] = [[]]"
| "split_on sep (c # cs) =
     (if c = sep then [] # split_on sep cs
      else (case split_on sep cs of [] \<Rightarrow> [[c]] | w # ws \<Rightarrow> (c # w) # ws))"

section \<open>The regular expressions of the \<^verbatim>\<open>re\<close> module\<close>

text \<open>
  Only the constructs that the patterns of the repository use are modelled: a
  character class (a literal, \<^verbatim>\<open>\d\<close>, \<^verbatim>\<open>\s\<close>, the dot under \<^verbatim>\<open>re.DOTALL\<close>, a set
  such as \<^verbatim>\<open>[A-D]\<close>), concatenation, a greedy or lazy star of a character class, a
  numbered capturing group, alternation, the look-ahead \<^verbatim>\<open>(?=...)\<close> and \<^verbatim>\<open>$\<close>.
  Every pattern of the repository that contains a dot is compiled with
  \<^verbatim>\<open>re.DOTALL\<close>, so \<open>Any\<close> accepts the line feed as well.
\<close>

datatype cls = Lit char | Digit | Space | Any | OneOf string

datatype rx = Eps | Chr cls | Cat rx rx | Star bool cls | Group nat rx
  | Alt rx rx | Ahead rx | Eos

type_synonym caps = "nat \<rightharpoonup> string"

text \<open>The first argument is the flag \<^verbatim>\<open>re.IGNORECASE\<close>.\<close>

fun cls_match :: "bool \<Rightarrow> cls \<Rightarrow> char \<Rightarrow> bool" where
  "cls_match ic (Lit a) c = (if ic then py_lower c = py_lower a else c = a)"
| "cls_match ic Digit c = is_digit c"
| "cls_match ic Space c = is_space c"
| "cls_match ic Any c = True"
| "cls_match ic (OneOf as) c =
     (if ic then py_lower c \<in> set (map py_lower as) else c \<in> set as)"

text \<open>
  The matcher is the backtracking search of \<^verbatim>\<open>re\<close> in continuation-passing style:
  \<open>k\<close> is the rest of the pattern, \<open>None\<close> is failure, and the first success in the
  order of priority is the result.  A lazy star tries the rest of the pattern before
  it takes one more character, a greedy star takes all it can and gives characters
  back one by one.
\<close>

fun lazy_loop :: "(char \<Rightarrow> bool) \<Rightarrow> string \<Rightarrow> (string \<Rightarrow> 'a option) \<Rightarrow> 'a option" where
  "lazy_loop p [] k = k []"
| "lazy_loop p (c # cs) k =
     (case k (c # cs) of Some r \<Rightarrow> Some r
      | None \<Rightarrow> if p c then lazy_loop p cs k else None)"

fun greedy_loop :: "(char \<Rightarrow> bool) \<Rightarrow> string \<Rightarrow> (string \<Rightarrow> 'a option) \<Rightarrow> 'a option" where
  "greedy_loop p [] k = k []"
| "greedy_loop p (c # cs) k =
     (if p c then (case greedy_loop p cs k of Some r \<Rightarrow> Some r | None \<Rightarrow> k (c # cs))
      else k (c # cs))"

fun rx_match :: "bool \<Rightarrow> rx \<Rightarrow> string \<Rightarrow> caps
    \<Rightarrow> (string \<Rightarrow> caps \<Rightarrow> (string \<times> caps) option) \<Rightarrow> (string \<times> caps) option" where
  "rx_match ic Eps s g k = k s g"
| "rx_match ic (Chr c) [] g k = None"
| "rx_match ic (Chr c) (x # xs) g k = (if cls_match ic c x then k xs g else None)"
| "rx_match ic (Cat a b) s g k = rx_match ic a s g (\<lambda>s' g'. rx_match ic b s' g' k)"
| "rx_match ic (Star greedy c) s g k =
     (if greedy then greedy_loop (cls_match ic c) s (\<lambda>s'. k s' g)
      else lazy_loop (cls_match ic c) s (\<lambda>s'. k s' g))"
| "rx_match ic (Group n r) s g k =
     rx_match ic r s g (\<lambda>s' g'. k s' (g'(n \<mapsto> take (length s - length s') s)))"
| "rx_match ic (Alt a b) s g k =
     (case rx_match ic a s g k of Some r \<Rightarrow> Some r | None \<Rightarrow> rx_match ic b s g k)"
| "rx_match ic (Ahead r) s g k =
     (case rx_match ic r s g (\<lambda>s' g'. Some (s', g')) of
        None \<Rightarrow> None
      | Some (_, g') \<Rightarrow> k s g')"
| "rx_match ic Eos s g k = (if s = [] \<or> s = [CHR 0x0A] then k s g else None)"

text \<open>A literal word, a sequence of patterns, and \<^verbatim>\<open>c+\<close> and \<^verbatim>\<open>c+?\<close>.\<close>

definition lits :: "string \<Rightarrow> rx" where
  "lits w = foldr (\<lambda>c r. Cat (Chr (Lit c)) r) w Eps"

definition seq :: "rx list \<Rightarrow> rx" where
  "seq rs = foldr Cat rs Eps"

definition plus :: "bool \<Rightarrow> cls \<Rightarrow> rx" where
  "plus greedy c = Cat (Chr c) (Star greedy c)"

text \<open>
  A match that starts at the head of \<open>s\<close>: the number of characters it takes and
  its groups.  \<open>re_search\<close> tries every start from left to right and returns the
  start, the length and the groups of the first match.
\<close>

definition match_at :: "bool \<Rightarrow> rx \<Rightarrow> string \<Rightarrow> (nat \<times> caps) option" where
  "match_at ic r s =
     map_option (\<lambda>(s', g). (length s - length s', g))
       (rx_match ic r s Map.empty (\<lambda>s' g. Some (s', g)))"

fun re_search :: "bool \<Rightarrow> rx \<Rightarrow> string \<Rightarrow> (nat \<times> nat \<times> caps) option" where
  "re_search ic r [] = map_option (\<lambda>(n, g). (0, n, g)) (match_at ic r [])"
| "re_search ic r (c # cs) =
     (case match_at ic r (c # cs) of
        Some (n, g) \<Rightarrow> Some (0, n, g)
      | None \<Rightarrow> map_option (\<lambda>(i, n, g). (Suc i, n, g)) (re_search ic r cs))"

text \<open>
  The matches that \<^verbatim>\<open>findall\<close> and \<^verbatim>\<open>split\<close> walk through: the search starts
  again where the last match ended.  After an empty match the walk moves on by one
  character; no pattern of the repository matches the empty string
  (lemma \<open>match_at_header\<close> and its companions give the length of each match).
\<close>

function re_finditer :: "bool \<Rightarrow> rx \<Rightarrow> string \<Rightarrow> caps list" where
  "re_finditer ic r s =
     (case re_search ic r s of
        None \<Rightarrow> []
      | Some (i, n, g) \<Rightarrow>
          g # (if i < length s then re_finditer ic r (drop (i + max n 1) s) else []))"
  by pat_completeness auto
termination
  by (relation "measure (\<lambda>(ic, r, s). length s)") auto

declare re_finditer.simps [simp del]

text \<open>The text of a group; \<^verbatim>\<open>findall\<close> gives the empty string for a group that
  took no part in the match.\<close>

definition grp :: "caps \<Rightarrow> nat \<Rightarrow> string" where
  "grp g n = (case g n of None \<Rightarrow> [] | Some x \<Rightarrow> x)"

text \<open>\<^verbatim>\<open>findall\<close> for a pattern with one group and for a pattern with six.\<close>

definition re_findall1 :: "bool \<Rightarrow> rx \<Rightarrow> string \<Rightarrow> string list" where
  "re_findall1 ic r s = map (\<lambda>g. grp g 1) (re_finditer ic r s)"

definition groups6 :: "caps \<Rightarrow> string \<times> string \<times> string \<times> string \<times> string \<times> string" where
  "groups6 g = (grp g 1, grp g 2, grp g 3, grp g 4, grp g 5, grp g 6)"

definition re_findall6 :: "bool \<Rightarrow> rx \<Rightarrow> string
    \<Rightarrow> (string \<times> string \<times> string \<times> string \<times> string \<times> string) list" where
  "re_findall6 ic r s = map groups6 (re_finditer ic r s)"

text \<open>
  \<^verbatim>\<open>split\<close> for a pattern with one group: the text before each match, then the
  group of the match (\<^verbatim>\<open>None\<close> when it took no part), and at the end the text after
  the last match.
\<close>

function re_split :: "bool \<Rightarrow> rx \<Rightarrow> string \<Rightarrow> string option list" where
  "re_split ic r s =
     (case re_search ic r s of
        None \<Rightarrow> [Some s]
      | Some (i, n, g) \<Rightarrow>
          Some (take i s) # g 1 #
            (if i < length s then re_split ic r (drop (i + max n 1) s) else [Some []]))"
  by pat_completeness auto
termination
  by (relation "measure (\<lambda>(ic, r, s). length s)") auto

declare re_split.simps [simp del]

section \<open>The question dictionaries\<close>

text \<open>Each application appends a dictionary with these three keys for a question.\<close>

record question =
  question_text :: string
  options_text :: string
  correct_answer :: string

datatype py_error = IndexError | TypeError | AttributeError

subsection \<open>\<^verbatim>\<open>app.py\<close>: split at the headers, then search each content block\<close>

text \<open>\<^verbatim>\<open>\*\*(\d+\.\s.*?)\*\*\<close> with \<^verbatim>\<open>re.DOTALL\<close>\<close>

definition header_pattern :: rx where
  "header_pattern = seq
     [lits ''**'',
      Group 1 (seq [plus True Digit, lits ''.'', Chr Space, Star False Any]),
      lits ''**'']"

text \<open>\<^verbatim>\<open>(A\).+?)\s*\*\*Correct Answer:\s*([A-D])\s*\<close> with \<^verbatim>\<open>re.DOTALL\<close>\<close>

definition options_and_answer_pattern :: rx where
  "options_and_answer_pattern = seq
     [Group 1 (seq [lits ''A)'', plus False Any]), Star True Space,
      lits ''**Correct Answer:'', Star True Space,
      Group 2 (Chr (OneOf ''ABCD'')), Star True Space]"

text \<open>\<^verbatim>\<open>([A-D]\).+?)(?=\s*[A-D]\)|\s*$)\<close> with \<^verbatim>\<open>re.DOTALL\<close>\<close>

definition options_list_pattern :: rx where
  "options_list_pattern = seq
     [Group 1 (seq [Chr (OneOf ''ABCD''), lits '')'', plus False Any]),
      Ahead (Alt (seq [Star True Space, Chr (OneOf ''ABCD''), lits '')''])
                 (seq [Star True Space, Eos]))]"

text \<open>\<^verbatim>\<open>range(start, stop, step)\<close> for a positive step, and \<^verbatim>\<open>xs[i]\<close>.\<close>

definition py_range :: "nat \<Rightarrow> nat \<Rightarrow> nat \<Rightarrow> nat list" where
  "py_range start stop step =
     map (\<lambda>k. start + k * step) [0 ..< (stop - start + step - 1) div step]"

definition index :: "'a list \<Rightarrow> nat \<Rightarrow> py_error + 'a" where
  "index xs i = (if i < length xs then Inr (xs ! i) else Inl IndexError)"

text \<open>
  The body of the loop of \<^verbatim>\<open>parse_questions\<close> for one index \<open>i\<close>: it reads
  \<^verbatim>\<open>question_blocks[i]\<close> and \<^verbatim>\<open>question_blocks[i+1]\<close>, searches the content block and,
  when the search succeeds, appends a dictionary to \<^verbatim>\<open>questions_list\<close>.
\<close>

definition parse_block :: "string option list \<Rightarrow> nat \<Rightarrow> question list
    \<Rightarrow> py_error + question list" where
  "parse_block question_blocks i questions_list =
     (case index question_blocks i of
        Inl e \<Rightarrow> Inl e
      | Inr question_text_raw \<Rightarrow>
     (case index question_blocks (i + 1) of
        Inl e \<Rightarrow> Inl e
      | Inr None \<Rightarrow> Inl TypeError
      | Inr (Some content_block) \<Rightarrow>
     (case re_search False options_and_answer_pattern content_block of
        None \<Rightarrow> Inr questions_list
      | Some (_, _, g) \<Rightarrow>
          (let options_block = grp g 1;
               correct_answer = grp g 2;
               options_list = re_findall1 False options_list_pattern options_block;
               options_text = join [CHR 0x0A] (map strip options_list)
           in case question_text_raw of
                None \<Rightarrow> Inl AttributeError
              | Some q \<Rightarrow>
                  Inr (questions_list @
                    [\<lparr>question_text = strip q, options_text = options_text,
                      correct_answer = strip correct_answer\<rparr>])))))"

fun parse_loop :: "string option list \<Rightarrow> nat list \<Rightarrow> question list
    \<Rightarrow> py_error + question list" where
  "parse_loop question_blocks [] questions_list = Inr questions_list"
| "parse_loop question_blocks (i # is) questions_list =
     (case parse_block question_blocks i questions_list of
        Inl e \<Rightarrow> Inl e
      | Inr questions_list' \<Rightarrow> parse_loop question_blocks is questions_list')"

definition parse_questions_app :: "string \<Rightarrow> py_error + question list" where
  "parse_questions_app raw_text =
     (let question_blocks = re_split False header_pattern raw_text
      in parse_loop question_blocks (py_range 1 (length question_blocks) 2) [])"

subsection \<open>\<^verbatim>\<open>app1.py\<close>: one pattern for the whole block\<close>

text \<open>
  \<^verbatim>\<open>\*\*(\d+\.\s.*?)\*\*\s*(A\).+?)\s*(B\).+?)\s*(C\).+?)\s*(D\).+?)\s*\*\*Correct Answer:\s*([A-D])\s*\<close>
  with \<^verbatim>\<open>re.DOTALL | re.IGNORECASE\<close>
\<close>

definition question_pattern :: rx where
  "question_pattern = seq
     [lits ''**'',
      Group 1 (seq [plus True Digit, lits ''.'', Chr Space, Star False Any]),
      lits ''**'', Star True Space,
      Group 2 (seq [lits ''A)'', plus False Any]), Star True Space,
      Group 3 (seq [lits ''B)'', plus False Any]), Star True Space,
      Group 4 (seq [lits ''C)'', plus False Any]), Star True Space,
      Group 5 (seq [lits ''D)'', plus False Any]), Star True Space,
      lits ''**Correct Answer:'', Star True Space,
      Group 6 (Chr (OneOf ''ABCD'')), Star True Space]"

text \<open>The dictionary that \<^verbatim>\<open>parse_questions\<close> builds from one match; the text of the
  question is stripped twice.\<close>

definition question_of_match ::
    "string \<times> string \<times> string \<times> string \<times> string \<times> string \<Rightarrow> question" where
  "question_of_match mt =
     (case mt of (m0, m1, m2, m3, m4, m5) \<Rightarrow>
        (let question_text_raw = strip m0;
             options = [m1, m2, m3, m4];
             options_text = join [CHR 0x0A] (map strip options);
             correct_answer = strip m5
         in \<lparr>question_text = strip question_text_raw,
             options_text = options_text,
             correct_answer = correct_answer\<rparr>))"

text \<open>The loop \<^verbatim>\<open>for match in matches\<close> appends to \<^verbatim>\<open>questions_list\<close>.\<close>

fun append_questions ::
    "(string \<times> string \<times> string \<times> string \<times> string \<times> string) list
     \<Rightarrow> question list \<Rightarrow> question list" where
  "append_questions [] questions_list = questions_list"
| "append_questions (match # matches) questions_list =
     append_questions matches (questions_list @ [question_of_match match])"

definition parse_questions_app1 :: "string \<Rightarrow> question list" where
  "parse_questions_app1 raw_text =
     (let questions_list = [];
          matches = re_findall6 True question_pattern raw_text
      in append_questions matches questions_list)"

subsection \<open>\<^verbatim>\<open>app2.py\<close>: the same pattern with a blank after the number, and a
  second try without code fences\<close>

text \<open>
  \<^verbatim>\<open>\*\*(\d+\. .*?)\*\*\s*(A\).+?)\s*(B\).+?)\s*(C\).+?)\s*(D\).+?)\s*\*\*Correct Answer:\s*([A-D])\s*\<close>
  with \<^verbatim>\<open>re.DOTALL | re.IGNORECASE\<close>
\<close>

definition pattern :: rx where
  "pattern = seq
     [lits ''**'',
      Group 1 (seq [plus True Digit, lits ''. '', Star False Any]),
      lits ''**'', Star True Space,
      Group 2 (seq [lits ''A)'', plus False Any]), Star True Space,
      Group 3 (seq [lits ''B)'', plus False Any]), Star True Space,
      Group 4 (seq [lits ''C)'', plus False Any]), Star True Space,
      Group 5 (seq [lits ''D)'', plus False Any]), Star True Space,
      lits ''**Correct Answer:'', Star True Space,
      Group 6 (Chr (OneOf ''ABCD'')), Star True Space]"

text \<open>
  The part of \<^verbatim>\<open>generate_questions\<close> between the answer of the model
  (\<^verbatim>\<open>raw_text\<close>) and the list \<^verbatim>\<open>page\<close>: the matches, the second try on the text
  without code fences, and the loop that appends a dictionary for each match.
\<close>

definition page_entry ::
    "string \<times> string \<times> string \<times> string \<times> string \<times> string \<Rightarrow> question" where
  "page_entry mt =
     (case mt of (m0, m1, m2, m3, m4, m5) \<Rightarrow>
        (let qtext = strip m0;
             options = join [CHR 0x0A] (map strip [m1, m2, m3, m4]);
             answer = strip m5
         in \<lparr>question_text = qtext, options_text = options, correct_answer = answer\<rparr>))"

fun append_page ::
    "(string \<times> string \<times> string \<times> string \<times> string \<times> string) list
     \<Rightarrow> question list \<Rightarrow> question list" where
  "append_page [] page = page"
| "append_page (match # matches) page = append_page matches (page @ [page_entry match])"

definition generate_questions_page :: "string \<Rightarrow> question list" where
  "generate_questions_page raw_text =
     (let matches = re_findall6 True pattern raw_text;
          page = [];
          matches = (if matches = [] \<and> contains ''```'' raw_text
                     then (let clean_text = strip (replace ''```'' [] raw_text)
                           in re_findall6 True pattern clean_text)
                     else matches)
      in append_page matches page)"

section \<open>The text that the prompt asks for\<close>

text \<open>
  Each application asks the model to format every question ``precisely as follows'':
  \<^verbatim>\<open>**1. [Question text]**\<close>, then the four lines \<^verbatim>\<open>A) [Option A]\<close> to
  \<^verbatim>\<open>D) [Option D]\<close>, then \<^verbatim>\<open>**Correct Answer: [Letter of the correct option]**\<close>.
  A \<open>block\<close> holds the texts that fill this template.  \<open>block_open f b\<close> is the
  template up to the answer letter and \<open>block_text f b\<close> closes the emphasis; the
  function \<open>f\<close> is applied to the letters of the four labels, of the words
  \<^verbatim>\<open>Correct Answer:\<close> and of the answer, so that \<open>(\<lambda>c. c)\<close> gives the template
  as it is written and \<open>py_lower\<close> gives it in small letters.
\<close>

record block =
  number :: string
  qtext :: string
  opt_a :: string
  opt_b :: string
  opt_c :: string
  opt_d :: string
  answer :: char

definition nl :: string where
  "nl = [CHR 0x0A]"

definition option_line :: "(char \<Rightarrow> char) \<Rightarrow> char \<Rightarrow> string \<Rightarrow> string" where
  "option_line f l t = f l # '') '' @ t"

definition block_open :: "(char \<Rightarrow> char) \<Rightarrow> block \<Rightarrow> string" where
  "block_open f b =
     ''**'' @ number b @ ''. '' @ qtext b @ ''**'' @ nl @
     option_line f CHR ''A'' (opt_a b) @ nl @
     option_line f CHR ''B'' (opt_b b) @ nl @
     option_line f CHR ''C'' (opt_c b) @ nl @
     option_line f CHR ''D'' (opt_d b) @ nl @
     ''**'' @ map f ''Correct Answer:'' @ '' '' @ [f (answer b)]"

definition block_text :: "(char \<Rightarrow> char) \<Rightarrow> block \<Rightarrow> string" where
  "block_text f b = block_open f b @ ''**''"



text \<open>
  The patterns of the three applications find the parts of a block by the characters
  \<^verbatim>\<open>*\<close> and \<^verbatim>\<open>)\<close>.  A \<open>plain\<close> text is one that cannot be taken for a part of the
  template: it is not empty, does not end in white space and contains neither
  \<^verbatim>\<open>*\<close> nor \<^verbatim>\<open>)\<close>.  A plain block has a numeral for its number, a question text
  without \<^verbatim>\<open>*\<close>, four plain option texts and one of the four letters as its answer.
\<close>

definition plain_text :: "string \<Rightarrow> bool" where
  "plain_text t \<longleftrightarrow> t \<noteq> [] \<and> \<not> is_space (last t) \<and> CHR ''*'' \<notin> set t \<and> CHR '')'' \<notin> set t"

definition plain_block :: "block \<Rightarrow> bool" where
  "plain_block b \<longleftrightarrow>
     number b \<noteq> [] \<and> list_all is_digit (number b) \<and> CHR ''*'' \<notin> set (qtext b) \<and>
     plain_text (opt_a b) \<and> plain_text (opt_b b) \<and> plain_text (opt_c b) \<and> plain_text (opt_d b) \<and>
     answer b \<in> set ''ABCD''"

text \<open>The dictionary that a block stands for.\<close>

definition question_of_block :: "(char \<Rightarrow> char) \<Rightarrow> block \<Rightarrow> question" where
  "question_of_block f b =
     \<lparr>question_text = strip (number b @ ''. '' @ qtext b),
      options_text =
        option_line f CHR ''A'' (opt_a b) @ nl @ option_line f CHR ''B'' (opt_b b) @ nl @
        option_line f CHR ''C'' (opt_c b) @ nl @ option_line f CHR ''D'' (opt_d b),
      correct_answer = [f (answer b)]\<rparr>"



section \<open>The options as the specification sees them\<close>

text \<open>
  The applications show the options of a question line by line:
  \<^verbatim>\<open>q['options_text'].strip().split('\n')\<close>.  The specification speaks of pairs of
  a label and a text; \<open>spec_options\<close> reads such a pair off each line, the label
  in front of the first \<^verbatim>\<open>)\<close> and the stripped text behind it.
\<close>

definition option_lines :: "question \<Rightarrow> string list" where
  "option_lines q = split_on (CHR 0x0A) (strip (options_text q))"

definition spec_options :: "question \<Rightarrow> (string \<times> string) list" where
  "spec_options q =
     map (\<lambda>l. (takeWhile (\<lambda>c. c \<noteq> CHR '')'') l,
               strip (drop 1 (dropWhile (\<lambda>c. c \<noteq> CHR '')'') l))))
       (option_lines q)"

text \<open>
  A text has the label \<open>L\<close> when the letter \<open>L\<close>, in either case, stands somewhere in
  it in front of a \<^verbatim>\<open>)\<close>.  A segment is labelled \<open>L\<close> when it starts that way.
\<close>

fun has_label :: "char \<Rightarrow> string \<Rightarrow> bool" where
  "has_label L (x # y # s) = ((py_lower x = py_lower L \<and> y = CHR '')'') \<or> has_label L (y # s))"
| "has_label L s = False"

fun labelled :: "char \<Rightarrow> string \<Rightarrow> bool" where
  "labelled L (x # y # s) = (py_lower x = py_lower L \<and> y = CHR '')'')"
| "labelled L s = False"

text \<open>The block of the example of the specification, a second plain block, and a
  block of the convention whose option texts hold brackets and emphasis.\<close>

definition block_sum :: block where
  "block_sum = \<lparr>number = ''1'', qtext = ''What is 2+2?'', opt_a = ''3'', opt_b = ''4'',
     opt_c = ''5'', opt_d = ''6'', answer = CHR ''B''\<rparr>"



section \<open>Notions for the proofs\<close>

text \<open>
  \<open>den ic r s g s' g'\<close>: the pattern \<open>r\<close> can take a prefix of \<open>s\<close> and leave \<open>s'\<close>,
  turning the groups \<open>g\<close> into \<open>g'\<close>.  This is the relation without the order of
  priority; every result of the matcher is in it.
\<close>

fun den :: "bool \<Rightarrow> rx \<Rightarrow> string \<Rightarrow> caps \<Rightarrow> string \<Rightarrow> caps \<Rightarrow> bool" where
  "den ic Eps s g s' g' = (s' = s \<and> g' = g)"
| "den ic (Chr c) s g s' g' = (\<exists>x. s = x # s' \<and> cls_match ic c x \<and> g' = g)"
| "den ic (Cat a b) s g s' g' = (\<exists>s1 g1. den ic a s g s1 g1 \<and> den ic b s1 g1 s' g')"
| "den ic (Star gr c) s g s' g' = (\<exists>w. s = w @ s' \<and> (\<forall>x \<in> set w. cls_match ic c x) \<and> g' = g)"
| "den ic (Group n r) s g s' g' =
     (\<exists>g1. den ic r s g s' g1 \<and> g' = g1(n \<mapsto> take (length s - length s') s))"
| "den ic (Alt a b) s g s' g' = (den ic a s g s' g' \<or> den ic b s g s' g')"
| "den ic (Ahead r) s g s' g' = (s' = s \<and> (\<exists>s1. den ic r s g s1 g'))"
| "den ic Eos s g s' g' = ((s = [] \<or> s = [CHR 0x0A]) \<and> s' = s \<and> g' = g)"

text \<open>The header of a block and what follows it, and the loop of \<^verbatim>\<open>app.py\<close>
  started with any list of questions.\<close>

definition block_header :: "block \<Rightarrow> string" where
  "block_header b = ''**'' @ number b @ ''. '' @ qtext b @ ''**''"

definition block_content :: "(char \<Rightarrow> char) \<Rightarrow> block \<Rightarrow> string" where
  "block_content f b =
     nl @ option_line f CHR ''A'' (opt_a b) @ nl @
     option_line f CHR ''B'' (opt_b b) @ nl @
     option_line f CHR ''C'' (opt_c b) @ nl @
     option_line f CHR ''D'' (opt_d b) @ nl @
     ''**'' @ map f ''Correct Answer:'' @ '' '' @ [f (answer b)]"

definition parse_from :: "string \<Rightarrow> question list \<Rightarrow> py_error + question list" where
  "parse_from s acc =
     parse_loop (re_split False header_pattern s)
       (py_range (Suc 0) (length (re_split False header_pattern s)) 2) acc"

text \<open>The groups of the match of a block.\<close>

definition block_caps :: "(char \<Rightarrow> char) \<Rightarrow> block \<Rightarrow> caps" where
  "block_caps f b =
     [1 \<mapsto> number b @ ''. '' @ qtext b,
      2 \<mapsto> option_line f CHR ''A'' (opt_a b),
      3 \<mapsto> option_line f CHR ''B'' (opt_b b),
      4 \<mapsto> option_line f CHR ''C'' (opt_c b),
      5 \<mapsto> option_line f CHR ''D'' (opt_d b),
      6 \<mapsto> [f (answer b)]]"

section \<open>Lemmas\<close>

subsection \<open>Characters\<close>

lemma of_char_lt_256: "(of_char c :: nat) < 256"
  by (cases c) (simp add: of_char_def horner_sum_eq_sum)

lemma py_lower_code:
  "(is_upper c \<and> (of_char (py_lower c) :: nat) = of_char c + 32 \<and> 97 \<le> (of_char (py_lower c) :: nat)
      \<and> (of_char (py_lower c) :: nat) \<le> 254 \<and> ((of_char (py_lower c) :: nat) \<le> 122 \<or> 224 \<le> (of_char (py_lower c) :: nat)))
   \<or> (\<not> is_upper c \<and> py_lower c = c)"
proof (cases "is_upper c")
  case True
  define n where "n = (of_char c :: nat)"
  have lt: "n < 256" unfolding n_def by (rule of_char_lt_256)
  from True have up: "(65 \<le> n \<and> n \<le> 90) \<or> (192 \<le> n \<and> n \<le> 222 \<and> n \<noteq> 215)"
    by (simp add: is_upper_def Let_def n_def)
  from True have "py_lower c = char_of (n + 32)" by (simp add: py_lower_def n_def)
  then have "(of_char (py_lower c) :: nat) = (n + 32) mod 256" by simp
  with up have "(of_char (py_lower c) :: nat) = n + 32" by auto
  with up True show ?thesis unfolding n_def by auto
next
  case False
  then show ?thesis by (simp add: py_lower_def)
qed

lemma py_lower_fixed:
  fixes a :: char
  assumes "(of_char a :: nat) < 97 \<or> (122 < (of_char a :: nat) \<and> (of_char a :: nat) < 224) \<or> 254 < (of_char a :: nat)"
  shows "py_lower c = a \<longleftrightarrow> c = a \<and> \<not> is_upper a"
  using py_lower_code [of c] py_lower_code [of a] assms by auto

lemma py_lower_star [simp]: "py_lower c = CHR ''*'' \<longleftrightarrow> c = CHR ''*''"
  by (subst py_lower_fixed) (simp_all add: is_upper_def)

lemma py_lower_paren [simp]: "py_lower c = CHR '')'' \<longleftrightarrow> c = CHR '')''"
  by (subst py_lower_fixed) (simp_all add: is_upper_def)

lemma py_lower_space: "is_space c \<Longrightarrow> py_lower c = c"
  by (auto simp: is_space_def py_lower_def is_upper_def)

lemma py_lower_idem [simp]: "py_lower (py_lower c) = py_lower c"
proof -
  have "\<not> is_upper (py_lower c)"
    using py_lower_code [of c] by (auto simp: is_upper_def Let_def)
  then show ?thesis by (simp add: py_lower_def)
qed


subsection \<open>The two loops\<close>

lemma lazy_loop_hit: "k s = Some r \<Longrightarrow> lazy_loop p s k = Some r"
  by (cases s) simp_all

lemma lazy_loop_skip:
  assumes "\<forall>x \<in> set t. p x"
      and "\<And>v u. t = v @ u \<Longrightarrow> u \<noteq> [] \<Longrightarrow> k (u @ s) = None"
  shows "lazy_loop p (t @ s) k = lazy_loop p s k"
  using assms
proof (induction t)
  case Nil
  then show ?case by simp
next
  case (Cons c t)
  have "k ((c # t) @ s) = None" using Cons.prems(2) [of "[]" "c # t"] by simp
  moreover have "lazy_loop p (t @ s) k = lazy_loop p s k"
  proof (rule Cons.IH)
    show "\<forall>x \<in> set t. p x" using Cons.prems(1) by simp
    show "k (u @ s) = None" if "t = v @ u" "u \<noteq> []" for v u
      using Cons.prems(2) [of "c # v" u] that by simp
  qed
  ultimately show ?case using Cons.prems(1) by simp
qed

lemma lazy_loop_sound:
  "lazy_loop p s k = Some r \<Longrightarrow> \<exists>w s'. s = w @ s' \<and> (\<forall>x \<in> set w. p x) \<and> k s' = Some r"
proof (induction s)
  case Nil
  then show ?case by simp
next
  case (Cons c s)
  show ?case
  proof (cases "k (c # s)")
    case (Some a)
    with Cons.prems have "k (c # s) = Some r" by simp
    then show ?thesis by (intro exI [of _ "[]"] exI [of _ "c # s"]) simp
  next
    case None
    with Cons.prems have pc: "p c" and "lazy_loop p s k = Some r"
      by (auto split: if_splits)
    then obtain w s' where "s = w @ s'" "\<forall>x \<in> set w. p x" "k s' = Some r"
      using Cons.IH by blast
    with pc show ?thesis by (intro exI [of _ "c # w"] exI [of _ s']) simp
  qed
qed

lemma greedy_loop_sound:
  "greedy_loop p s k = Some r \<Longrightarrow> \<exists>w s'. s = w @ s' \<and> (\<forall>x \<in> set w. p x) \<and> k s' = Some r"
proof (induction s)
  case Nil
  then show ?case by simp
next
  case (Cons c s)
  show ?case
  proof (cases "p c \<and> greedy_loop p s k \<noteq> None")
    case True
    with Cons.prems have pc: "p c" and "greedy_loop p s k = Some r"
      by (auto split: option.splits)
    then obtain w s' where "s = w @ s'" "\<forall>x \<in> set w. p x" "k s' = Some r"
      using Cons.IH by blast
    with pc show ?thesis by (intro exI [of _ "c # w"] exI [of _ s']) simp
  next
    case False
    with Cons.prems have "k (c # s) = Some r"
      by (auto split: if_splits option.splits)
    then show ?thesis by (intro exI [of _ "[]"] exI [of _ "c # s"]) simp
  qed
qed

text \<open>A greedy loop in front of a continuation that succeeds takes every character
  of the class.\<close>

lemma greedy_loop_all:
  assumes "\<forall>x \<in> set w. p x" and "s = [] \<or> \<not> p (hd s)" and "k s = Some r"
  shows "greedy_loop p (w @ s) k = Some r"
  using assms
proof (induction w)
  case Nil
  then show ?case by (cases s) auto
next
  case (Cons c w)
  then show ?case by simp
qed

text \<open>A greedy loop in front of a continuation that fails on every character of the
  class takes every character of the class, whatever follows.\<close>

lemma greedy_loop_disjoint:
  assumes "\<forall>x \<in> set w. p x" and "s = [] \<or> \<not> p (hd s)"
      and "\<And>x xs. p x \<Longrightarrow> k (x # xs) = None"
  shows "greedy_loop p (w @ s) k = k s"
  using assms
proof (induction w)
  case Nil
  then show ?case by (cases s) auto
next
  case (Cons c w)
  then show ?case by (auto split: option.splits)
qed

lemma greedy_loop_total:
  "greedy_loop p s (\<lambda>s'. Some (f s')) = Some (f (dropWhile p s))"
  by (induction s) auto

subsection \<open>What a successful match says about the text\<close>

lemma rx_match_sound:
  "rx_match ic r s g k = Some res \<Longrightarrow> \<exists>s' g'. den ic r s g s' g' \<and> k s' g' = Some res"
proof (induction r arbitrary: s g k res)
  case Eps
  then show ?case by simp
next
  case (Chr c)
  then show ?case by (cases s) (auto split: if_splits)
next
  case (Cat a b)
  from Cat.prems have "rx_match ic a s g (\<lambda>s' g'. rx_match ic b s' g' k) = Some res" by simp
  then obtain s1 g1 where a: "den ic a s g s1 g1" and "rx_match ic b s1 g1 k = Some res"
    using Cat.IH(1) by blast
  then obtain s' g' where "den ic b s1 g1 s' g'" "k s' g' = Some res"
    using Cat.IH(2) by blast
  with a show ?case by auto
next
  case (Star gr c)
  then show ?case
    by (cases gr) (auto dest!: greedy_loop_sound lazy_loop_sound)
next
  case (Group n r)
  from Group.prems
  have "rx_match ic r s g (\<lambda>s' g'. k s' (g'(n \<mapsto> take (length s - length s') s))) = Some res"
    by simp
  then obtain s' g1 where "den ic r s g s' g1"
      "k s' (g1(n \<mapsto> take (length s - length s') s)) = Some res"
    using Group.IH by blast
  then show ?case by auto
next
  case (Alt a b)
  show ?case
  proof (cases "rx_match ic a s g k")
    case None
    with Alt.prems have "rx_match ic b s g k = Some res" by simp
    from Alt.IH(2) [OF this] show ?thesis by auto
  next
    case (Some x)
    with Alt.prems have "rx_match ic a s g k = Some res" by simp
    from Alt.IH(1) [OF this] show ?thesis by auto
  qed
next
  case (Ahead r)
  from Ahead.prems obtain s1 g1
    where m: "rx_match ic r s g (\<lambda>s' g'. Some (s', g')) = Some (s1, g1)" and k: "k s g1 = Some res"
    by (auto split: option.splits)
  from Ahead.IH [OF m] have "den ic r s g s1 g1" by auto
  with k show ?case by auto
next
  case Eos
  then show ?case by (auto split: if_splits)
qed

lemma rx_match_None:
  "(\<And>s' g'. \<not> den ic r s g s' g') \<Longrightarrow> rx_match ic r s g k = None"
  using rx_match_sound [of ic r s g k] by (cases "rx_match ic r s g k") auto


subsection \<open>Running a pattern forwards\<close>

lemma seq_Nil [simp]: "seq [] = Eps"
  by (simp add: seq_def)

lemma seq_Cons [simp]: "seq (r # rs) = Cat r (seq rs)"
  by (simp add: seq_def)

lemma lits_Nil [simp]: "lits [] = Eps"
  by (simp add: lits_def)

lemma lits_Cons [simp]: "lits (c # w) = Cat (Chr (Lit c)) (lits w)"
  by (simp add: lits_def)

lemma rx_match_lits:
  "list_all2 (\<lambda>a c. cls_match ic (Lit a) c) w w' \<Longrightarrow> rx_match ic (lits w) (w' @ s) g k = k s g"
  by (induction w w' rule: list_all2_induct) simp_all

lemma rx_match_lits_same [simp]: "rx_match ic (lits w) (w @ s) g k = k s g"
  by (rule rx_match_lits) (simp add: list_all2_same)

lemma rx_match_greedy_all:
  assumes "\<forall>x \<in> set w. cls_match ic c x" and "s = [] \<or> \<not> cls_match ic c (hd s)"
      and "k s g = Some res"
  shows "rx_match ic (Star True c) (w @ s) g k = Some res"
  using assms by (simp add: greedy_loop_all)

lemma rx_match_lazy_skip:
  assumes "k s g = Some res"
      and "\<And>v u. t = v @ u \<Longrightarrow> u \<noteq> [] \<Longrightarrow> k (u @ s) g = None"
  shows "rx_match ic (Star False Any) (t @ s) g k = Some res"
proof -
  have "lazy_loop (cls_match ic Any) (t @ s) (\<lambda>s'. k s' g)
      = lazy_loop (cls_match ic Any) s (\<lambda>s'. k s' g)"
    by (rule lazy_loop_skip) (use assms(2) in auto)
  then show ?thesis using assms(1) by (simp add: lazy_loop_hit)
qed

lemma take_consumed [simp]: "take (length (u @ v) - length v) (u @ v) = u"
  by simp

lemma take_consumed_Cons [simp]: "take (Suc (length (u @ v)) - length v) (c # u @ v) = c # u"
  by (simp add: Suc_diff_le)

lemma py_lower_of_star [simp]: "py_lower CHR ''*'' = CHR ''*''"
  by (simp add: py_lower_def is_upper_def)

lemma py_lower_of_paren [simp]: "py_lower CHR '')'' = CHR '')''"
  by (simp add: py_lower_def is_upper_def)

lemma cls_match_star [simp]: "cls_match ic (Lit CHR ''*'') x \<longleftrightarrow> x = CHR ''*''"
  by simp

lemma cls_match_paren [simp]: "cls_match ic (Lit CHR '')'') x \<longleftrightarrow> x = CHR '')''"
  by simp

lemma cls_match_Lit_same [simp]: "cls_match ic (Lit c) c"
  by simp

declare cls_match.simps(1) [simp del]

declare cls_match.simps(5) [simp del]

lemma cls_match_Space [simp]: "cls_match ic Space = is_space"
  by (rule ext) simp

lemma cls_match_Digit [simp]: "cls_match ic Digit = is_digit"
  by (rule ext) simp

lemma cls_match_Any [simp]: "cls_match ic Any = (\<lambda>c. True)"
  by (rule ext) simp

text \<open>The end of the three patterns: \<^verbatim>\<open>\*\*Correct Answer:\s*([A-D])\s*\<close>.\<close>

lemma den_starts_with_star:
  "den ic (Cat (Star True Space) (Cat (lits (CHR ''*'' # w)) r)) s g s' g' \<Longrightarrow>
   \<exists>sp z. s = sp @ CHR ''*'' # z \<and> (\<forall>x \<in> set sp. is_space x)"
  by auto

lemma gap_fail_star:
  assumes "u \<noteq> []" "\<not> is_space (last u)" "CHR ''*'' \<notin> set u"
  shows "rx_match ic (Cat (Star True Space) (Cat (lits (CHR ''*'' # w)) r)) (u @ v) g k = None"
proof (rule rx_match_None)
  fix s' g'
  show "\<not> den ic (Cat (Star True Space) (Cat (lits (CHR ''*'' # w)) r)) (u @ v) g s' g'"
  proof
    assume "den ic (Cat (Star True Space) (Cat (lits (CHR ''*'' # w)) r)) (u @ v) g s' g'"
    then obtain sp z where eq: "u @ v = sp @ CHR ''*'' # z" and sp: "\<forall>x \<in> set sp. is_space x"
      using den_starts_with_star by blast
    from eq consider (a) y where "u = sp @ y" "y @ v = CHR ''*'' # z"
      | (b) y where "u @ y = sp" "v = y @ CHR ''*'' # z"
      by (auto simp: append_eq_append_conv2)
    then show False
    proof cases
      case a
      show False
      proof (cases y)
        case Nil
        with a assms(1,2) sp show False by auto
      next
        case (Cons c y')
        with a assms(3) show False by auto
      qed
    next
      case b
      with assms(1,2) sp show False by auto
    qed
  qed
qed

subsection \<open>One option line\<close>

lemma den_starts_with_label:
  "den ic (Cat (Star True Space) (Cat (Group n (Cat (lits [L, CHR '')'']) r1)) r2)) s g s' g' \<Longrightarrow>
   \<exists>sp l z. s = sp @ l # CHR '')'' # z \<and> (\<forall>x \<in> set sp. is_space x)"
  by auto

lemma gap_fail_label:
  assumes "u \<noteq> []" "\<not> is_space (last u)" "CHR '')'' \<notin> set u" "v \<noteq> [] \<Longrightarrow> hd v \<noteq> CHR '')''"
  shows "rx_match ic (Cat (Star True Space) (Cat (Group n (Cat (lits [L, CHR '')'']) r1)) r2))
           (u @ v) g k = None"
proof (rule rx_match_None)
  fix s' g'
  show "\<not> den ic (Cat (Star True Space) (Cat (Group n (Cat (lits [L, CHR '')'']) r1)) r2))
           (u @ v) g s' g'"
  proof
    assume "den ic (Cat (Star True Space) (Cat (Group n (Cat (lits [L, CHR '')'']) r1)) r2))
           (u @ v) g s' g'"
    then obtain sp l z where eq: "u @ v = sp @ l # CHR '')'' # z"
        and sp: "\<forall>x \<in> set sp. is_space x"
      using den_starts_with_label by blast
    from eq consider (a) y where "u = sp @ y" "y @ v = l # CHR '')'' # z"
      | (b) y where "u @ y = sp" "v = y @ l # CHR '')'' # z"
      by (auto simp: append_eq_append_conv2)
    then show False
    proof cases
      case a
      show False
      proof (cases y)
        case Nil
        with a assms(1,2) sp show False by auto
      next
        case (Cons c y')
        show False
        proof (cases y')
          case Nil
          with Cons a assms(4) show False by (cases v) auto
        next
          case (Cons c' y'')
          with \<open>y = c # y'\<close> a assms(3) show False by auto
        qed
      qed
    next
      case b
      with assms(1,2) sp show False by auto
    qed
  qed
qed

lemma run_option:
  assumes rest: "rx_match ic (seq rs) s (g(n \<mapsto> l # '') '' @ t)) k = Some res"
      and fail: "\<And>v u g'. t = v @ u \<Longrightarrow> u \<noteq> [] \<Longrightarrow> rx_match ic (seq rs) (u @ s) g' k = None"
      and l: "cls_match ic (Lit L) l"
  shows "rx_match ic (seq (Group n (seq [lits [L, CHR '')''], plus False Any]) # rs))
           (l # '') '' @ t @ s) g k = Some res"
proof -
  let ?S = "l # '') '' @ t @ s"
  let ?K = "\<lambda>s' g'. rx_match ic (seq rs) s' (g'(n \<mapsto> take (length ?S - length s') ?S)) k"
  have "rx_match ic (Star False Any) (t @ s) g ?K = Some res"
  proof (rule rx_match_lazy_skip)
    show "?K s g = Some res" using rest by (simp add: Suc_diff_le)
    show "?K (u @ s) g = None" if "t = v @ u" "u \<noteq> []" for v u
      using fail [OF that] by simp
  qed
  then show ?thesis using l by (simp add: plus_def)
qed

lemma is_space_py_lower [simp]: "is_space (py_lower c) \<longleftrightarrow> is_space c"
proof (cases "is_upper c")
  case True
  have "\<not> is_space c" using True by (auto simp: is_space_def is_upper_def)
  moreover have "\<not> is_space (py_lower c)"
  proof
    assume "is_space (py_lower c)"
    then have "(of_char (py_lower c) :: nat) \<in> {9, 10, 11, 12, 13, 28, 29, 30, 31, 32, 133, 160}"
      by (auto simp: is_space_def)
    with py_lower_code [of c] True show False by auto
  qed
  ultimately show ?thesis by simp
next
  case False
  then show ?thesis by (simp add: py_lower_def)
qed

lemma cls_match_Lit_space:
  "cls_match ic (Lit L) l \<Longrightarrow> \<not> is_space L \<Longrightarrow> \<not> is_space l"
  by (cases ic) (auto simp: cls_match.simps(1) dest: arg_cong [where f = is_space])

lemma run_spaces:
  assumes "rx_match ic (seq rs) s g k = Some res"
      and "\<forall>x \<in> set w. is_space x" and "s = [] \<or> \<not> is_space (hd s)"
  shows "rx_match ic (seq (Star True Space # rs)) (w @ s) g k = Some res"
  using assms by (simp add: greedy_loop_all)

lemma run_lits:
  assumes "rx_match ic (seq rs) s g k = Some res"
      and "list_all2 (\<lambda>a c. cls_match ic (Lit a) c) w w'"
  shows "rx_match ic (seq (lits w # rs)) (w' @ s) g k = Some res"
  using assms by (simp add: rx_match_lits)

lemma run_answer:
  assumes mk: "list_all2 (\<lambda>a c. cls_match ic (Lit a) c) ''**Correct Answer:'' mk"
      and w: "\<forall>x \<in> set w. is_space x"
      and a: "cls_match ic (OneOf ''ABCD'') a" "\<not> is_space a"
  shows "rx_match ic (seq [lits ''**Correct Answer:'', Star True Space,
                           Group n (Chr (OneOf ''ABCD'')), Star True Space])
           (mk @ w @ a # rest) g (\<lambda>s g. Some (s, g))
         = Some (dropWhile is_space rest, g(n \<mapsto> [a]))"
proof -
  have 1: "rx_match ic (seq [Group n (Chr (OneOf ''ABCD'')), Star True Space])
             (a # rest) g (\<lambda>s g. Some (s, g)) = Some (dropWhile is_space rest, g(n \<mapsto> [a]))"
    using a(1) by (simp add: greedy_loop_total Suc_diff_le)
  have 2: "rx_match ic (seq [Star True Space, Group n (Chr (OneOf ''ABCD'')), Star True Space])
             (w @ a # rest) g (\<lambda>s g. Some (s, g)) = Some (dropWhile is_space rest, g(n \<mapsto> [a]))"
    by (rule run_spaces [OF 1 w]) (use a(2) in simp)
  show ?thesis by (rule run_lits [OF 2 mk])
qed

text \<open>\<^verbatim>\<open>\s*(L\).+?)\<close> in front of the next label or of the closing marker.\<close>

lemma run_space_option:
  assumes rest: "rx_match ic (seq (Star True Space # rs)) s (g(n \<mapsto> l # '') '' @ t)) k = Some res"
      and fail: "\<And>v u g'. t = v @ u \<Longrightarrow> u \<noteq> [] \<Longrightarrow>
                   rx_match ic (seq (Star True Space # rs)) (u @ s) g' k = None"
      and l: "cls_match ic (Lit L) l" "\<not> is_space L"
      and w: "\<forall>x \<in> set w. is_space x"
  shows "rx_match ic (seq (Star True Space # Group n (seq [lits [L, CHR '')''], plus False Any])
                           # Star True Space # rs))
           (w @ l # '') '' @ t @ s) g k = Some res"
proof -
  have "rx_match ic (seq (Group n (seq [lits [L, CHR '')''], plus False Any])
                           # Star True Space # rs)) (l # '') '' @ t @ s) g k = Some res"
    by (rule run_option [OF rest fail l(1)])
  then show ?thesis
    by (rule run_spaces) (use w l cls_match_Lit_space in auto)
qed

lemma run_header:
  assumes rest: "rx_match ic (seq rs) s (g(1 \<mapsto> num @ ''. '' @ q)) k = Some res"
      and num: "num \<noteq> []" "list_all is_digit num"
      and q: "CHR ''*'' \<notin> set q"
  shows "rx_match ic (seq (lits ''**''
            # Group 1 (seq [plus True Digit, lits ''.'', Chr Space, Star False Any])
            # lits ''**'' # rs)) (''**'' @ num @ ''. '' @ q @ ''**'' @ s) g k = Some res"
proof -
  obtain d ds where nd: "num = d # ds" using num(1) by (cases num) auto
  let ?S = "num @ ''. '' @ q @ ''**'' @ s"
  let ?K = "\<lambda>s' g'. rx_match ic (seq (lits ''**'' # rs)) s'
                        (g'(1 \<mapsto> take (length ?S - length s') ?S)) k"
  have lazy: "rx_match ic (Star False Any) (q @ ''**'' @ s) g ?K = Some res"
  proof (rule rx_match_lazy_skip)
    have "take (length ?S - length (''**'' @ s)) ?S = num @ ''. '' @ q"
      by simp
    then show "?K (''**'' @ s) g = Some res" using rest by simp
    show "?K (u @ ''**'' @ s) g = None" if "q = v @ u" "u \<noteq> []" for v u
      using that q by (cases u) auto
  qed
  have "rx_match ic (Star True Digit) (ds @ ''. '' @ q @ ''**'' @ s) g
          (\<lambda>s' g'. rx_match ic (seq [lits ''.'', Chr Space, Star False Any]) s' g' ?K) = Some res"
  proof (rule rx_match_greedy_all)
    show "\<forall>x \<in> set ds. cls_match ic Digit x" using num(2) nd by (simp add: list_all_iff)
    show "''. '' @ q @ ''**'' @ s = [] \<or> \<not> cls_match ic Digit (hd (''. '' @ q @ ''**'' @ s))"
      by (simp add: is_digit_def)
    show "rx_match ic (seq [lits ''.'', Chr Space, Star False Any]) (''. '' @ q @ ''**'' @ s) g ?K
            = Some res"
      using lazy by (simp add: is_space_def)
  qed
  then show ?thesis using num(2) nd by (simp add: plus_def)
qed

subsection \<open>The four option lines and the answer\<close>

lemma cls_match_OneOf:
  assumes "\<And>c. cls_match ic (Lit c) (f c)" and "a \<in> set as"
  shows "cls_match ic (OneOf as) (f a)"
proof (cases ic)
  case True
  with assms(1) [of a] have "py_lower (f a) = py_lower a" by (simp add: cls_match.simps(1))
  with assms(2) True show ?thesis by (simp add: cls_match.simps(5))
next
  case False
  with assms(1) [of a] have "f a = a" by (simp add: cls_match.simps(1))
  with assms(2) False show ?thesis by (simp add: cls_match.simps(5))
qed

lemma marker_matches:
  assumes "\<And>c. cls_match ic (Lit c) (f c)"
  shows "list_all2 (\<lambda>a c. cls_match ic (Lit a) c) ''**Correct Answer:''
           (''**'' @ map f ''Correct Answer:'')"
  using assms by simp

lemma plain_text_suffix:
  assumes "plain_text t" "t = v @ u" "u \<noteq> []"
  shows "\<not> is_space (last u)" "CHR ''*'' \<notin> set u" "CHR '')'' \<notin> set u"
  using assms by (auto simp: plain_text_def)

lemma gap_fail_star_seq:
  assumes "u \<noteq> []" "\<not> is_space (last u)" "CHR ''*'' \<notin> set u"
  shows "rx_match ic (seq (Star True Space # lits (CHR ''*'' # w) # rs)) (u @ v) g k = None"
  unfolding seq_Cons by (rule gap_fail_star [OF assms])

lemma gap_fail_label_seq:
  assumes "u \<noteq> []" "\<not> is_space (last u)" "CHR '')'' \<notin> set u" "v \<noteq> [] \<Longrightarrow> hd v \<noteq> CHR '')''"
  shows "rx_match ic (seq (Star True Space # Group n (seq (lits [L, CHR '')''] # rs1)) # rs2))
           (u @ v) g k = None"
  unfolding seq_Cons by (rule gap_fail_label [OF assms])

lemma run_body:
  fixes f :: "char \<Rightarrow> char" and ans :: char and ic :: bool and rest :: string and g :: caps
    and ta tb tc td :: string
  defines "T6 \<equiv> (''**'' @ map f ''Correct Answer:'') @ '' '' @ f ans # rest"
  defines "T5 \<equiv> nl @ f CHR ''D'' # '') '' @ td @ nl @ T6"
  defines "T4 \<equiv> nl @ f CHR ''C'' # '') '' @ tc @ T5"
  defines "T3 \<equiv> nl @ f CHR ''B'' # '') '' @ tb @ T4"
  defines "T2 \<equiv> nl @ f CHR ''A'' # '') '' @ ta @ T3"
  defines "R6 \<equiv> [lits ''**Correct Answer:'', Star True Space,
                   Group 6 (Chr (OneOf ''ABCD'')), Star True Space]"
  defines "R5 \<equiv> Group 5 (seq [lits ''D)'', plus False Any]) # Star True Space # R6"
  defines "R4 \<equiv> Group 4 (seq [lits ''C)'', plus False Any]) # Star True Space # R5"
  defines "R3 \<equiv> Group 3 (seq [lits ''B)'', plus False Any]) # Star True Space # R4"
  defines "R2 \<equiv> Group 2 (seq [lits ''A)'', plus False Any]) # Star True Space # R3"
  assumes f: "\<And>c. cls_match ic (Lit c) (f c)"
      and wf: "plain_text ta" "plain_text tb" "plain_text tc" "plain_text td" "ans \<in> set ''ABCD''"
  shows "rx_match ic (seq (Star True Space # R2)) T2 g (\<lambda>s g. Some (s, g))
         = Some (dropWhile is_space rest,
                 g(2 \<mapsto> f CHR ''A'' # '') '' @ ta, 3 \<mapsto> f CHR ''B'' # '') '' @ tb,
                   4 \<mapsto> f CHR ''C'' # '') '' @ tc, 5 \<mapsto> f CHR ''D'' # '') '' @ td,
                   6 \<mapsto> [f ans]))"
proof -
  let ?k = "\<lambda>s (g :: caps). Some (s, g)"
  let ?g2 = "g(2 \<mapsto> f CHR ''A'' # '') '' @ ta)"
  let ?g3 = "?g2(3 \<mapsto> f CHR ''B'' # '') '' @ tb)"
  let ?g4 = "?g3(4 \<mapsto> f CHR ''C'' # '') '' @ tc)"
  let ?g5 = "?g4(5 \<mapsto> f CHR ''D'' # '') '' @ td)"
  let ?res = "(dropWhile is_space rest, ?g5(6 \<mapsto> [f ans]))"
  have sp: "\<And>L. L \<in> set ''ABCD'' \<Longrightarrow> \<not> is_space L" by (auto simp: is_space_def)
  have nsp: "\<And>L. L \<in> set ''ABCD'' \<Longrightarrow> \<not> is_space (f L)"
    using f sp cls_match_Lit_space by blast
  have wnl: "\<forall>x \<in> set nl. is_space x" by (simp add: nl_def is_space_def)
  have 6: "rx_match ic (seq R6) T6 ?g5 ?k = Some ?res"
    unfolding R6_def T6_def
  proof (rule run_answer [OF marker_matches [OF f]])
    show "\<forall>x \<in> set '' ''. is_space x" by (simp add: is_space_def)
    show "cls_match ic (OneOf ''ABCD'') (f ans)" by (rule cls_match_OneOf [OF f wf(5)])
    show "\<not> is_space (f ans)" by (rule nsp [OF wf(5)])
  qed
  have s6: "rx_match ic (seq (Star True Space # R6)) (nl @ T6) ?g5 ?k = Some ?res"
    by (rule run_spaces [OF 6 wnl]) (simp add: T6_def is_space_def)
  have 5: "rx_match ic (seq (Star True Space # R5)) T5 ?g4 ?k = Some ?res"
    unfolding R5_def T5_def
  proof (rule run_space_option [OF s6 _ f _ wnl])
    show "\<not> is_space CHR ''D''" by (simp add: is_space_def)
    show "rx_match ic (seq (Star True Space # R6)) (u @ nl @ T6) g' ?k = None"
      if "td = v @ u" "u \<noteq> []" for v u g'
      unfolding R6_def
      by (rule gap_fail_star_seq) (use that plain_text_suffix [OF wf(4) that] in auto)
  qed
  have 4: "rx_match ic (seq (Star True Space # R4)) T4 ?g3 ?k = Some ?res"
    unfolding R4_def T4_def
  proof (rule run_space_option [OF 5 _ f _ wnl])
    show "\<not> is_space CHR ''C''" by (simp add: is_space_def)
    show "rx_match ic (seq (Star True Space # R5)) (u @ T5) g' ?k = None"
      if "tc = v @ u" "u \<noteq> []" for v u g'
      unfolding R5_def
      by (rule gap_fail_label_seq) (use that plain_text_suffix [OF wf(3) that] in \<open>simp_all add: T5_def nl_def\<close>)
  qed
  have 3: "rx_match ic (seq (Star True Space # R3)) T3 ?g2 ?k = Some ?res"
    unfolding R3_def T3_def
  proof (rule run_space_option [OF 4 _ f _ wnl])
    show "\<not> is_space CHR ''B''" by (simp add: is_space_def)
    show "rx_match ic (seq (Star True Space # R4)) (u @ T4) g' ?k = None"
      if "tb = v @ u" "u \<noteq> []" for v u g'
      unfolding R4_def
      by (rule gap_fail_label_seq) (use that plain_text_suffix [OF wf(2) that] in \<open>simp_all add: T4_def nl_def\<close>)
  qed
  show ?thesis
    unfolding R2_def T2_def
  proof (rule run_space_option [OF 3 _ f _ wnl])
    show "\<not> is_space CHR ''A''" by (simp add: is_space_def)
    show "rx_match ic (seq (Star True Space # R3)) (u @ T3) g' ?k = None"
      if "ta = v @ u" "u \<noteq> []" for v u g'
      unfolding R3_def
      by (rule gap_fail_label_seq) (use that plain_text_suffix [OF wf(1) that] in \<open>simp_all add: T3_def nl_def\<close>)
  qed
qed

subsection \<open>Searching\<close>

lemma re_search_hit: "match_at ic r s = Some (n, g) \<Longrightarrow> re_search ic r s = Some (0, n, g)"
  by (cases s) simp_all

lemma re_search_skip:
  assumes "\<And>v u. j = v @ u \<Longrightarrow> u \<noteq> [] \<Longrightarrow> match_at ic r (u @ s) = None"
  shows "re_search ic r (j @ s) = map_option (\<lambda>(i, n, g). (length j + i, n, g)) (re_search ic r s)"
  using assms
proof (induction j)
  case Nil
  then show ?case by (simp add: option.map_ident case_prod_unfold)
next
  case (Cons c j)
  have "match_at ic r ((c # j) @ s) = None" using Cons.prems [of "[]" "c # j"] by simp
  moreover have "re_search ic r (j @ s)
      = map_option (\<lambda>(i, n, g). (length j + i, n, g)) (re_search ic r s)"
  proof (rule Cons.IH)
    show "match_at ic r (u @ s) = None" if "j = v @ u" "u \<noteq> []" for v u
      using Cons.prems [of "c # v" u] that by simp
  qed
  ultimately show ?case by (simp add: option.map_comp comp_def case_prod_unfold)
qed

lemma re_finditer_skip:
  assumes "\<And>v u. w = v @ u \<Longrightarrow> u \<noteq> [] \<Longrightarrow> match_at ic r (u @ s) = None"
  shows "re_finditer ic r (w @ s) = re_finditer ic r s"
proof -
  have "re_search ic r (w @ s)
      = map_option (\<lambda>(i, n, g). (length w + i, n, g)) (re_search ic r s)"
    by (rule re_search_skip) (rule assms)
  then show ?thesis
    by (subst re_finditer.simps, subst (2) re_finditer.simps)
       (auto split: option.splits simp: add.assoc)
qed

lemma re_finditer_none:
  assumes "\<And>v u. w = v @ u \<Longrightarrow> match_at ic r u = None"
  shows "re_finditer ic r w = []"
proof -
  have "re_search ic r u = None" if "w = v @ u" for v u
    using that
  proof (induction u arbitrary: v)
    case Nil
    then show ?case using assms [of v "[]"] by simp
  next
    case (Cons c u)
    from Cons.prems have "match_at ic r (c # u) = None" using assms by blast
    moreover have "re_search ic r u = None" by (rule Cons.IH [of "v @ [c]"]) (use Cons.prems in simp)
    ultimately show ?case by simp
  qed
  from this [of "[]" w] show ?thesis by (subst re_finditer.simps) simp
qed

lemma re_finditer_hit:
  assumes skip: "\<And>v u. j = v @ u \<Longrightarrow> u \<noteq> [] \<Longrightarrow> match_at ic r (u @ B @ rest) = None"
      and hit: "match_at ic r (B @ rest) = Some (length B, g)"
      and B: "B \<noteq> []"
  shows "re_finditer ic r (j @ B @ rest) = g # re_finditer ic r rest"
proof -
  have "re_search ic r (j @ B @ rest) = Some (length j, length B, g)"
    using re_search_skip [of j ic r "B @ rest", OF skip] re_search_hit [OF hit] by simp
  moreover have "max (length B) 1 = length B" using B by (cases B) auto
  ultimately show ?thesis using B by (subst re_finditer.simps) simp
qed

lemma re_finditer_block:
  assumes skip: "\<And>v u. j = v @ u \<Longrightarrow> u \<noteq> [] \<Longrightarrow> match_at ic r (u @ B @ rest) = None"
      and hit: "match_at ic r (B @ rest) = Some (length B + length (takeWhile is_space rest), g)"
      and B: "B \<noteq> []"
      and ws: "\<And>v u. takeWhile is_space rest = v @ u \<Longrightarrow> u \<noteq> [] \<Longrightarrow>
                 match_at ic r (u @ dropWhile is_space rest) = None"
  shows "re_finditer ic r (j @ B @ rest) = g # re_finditer ic r rest"
proof -
  let ?B = "B @ takeWhile is_space rest"
  have "re_finditer ic r (j @ ?B @ dropWhile is_space rest)
      = g # re_finditer ic r (dropWhile is_space rest)"
    by (rule re_finditer_hit) (use skip hit B in simp_all)
  moreover have "re_finditer ic r (takeWhile is_space rest @ dropWhile is_space rest)
      = re_finditer ic r (dropWhile is_space rest)"
    by (rule re_finditer_skip) (rule ws)
  ultimately show ?thesis by simp
qed

subsection \<open>Where a question can start\<close>

lemma den_header_start:
  "den ic (seq (lits ''**'' # Group 1 (seq (plus True Digit # rs1)) # rs2)) s g s' g' \<Longrightarrow>
   \<exists>d z. s = CHR ''*'' # CHR ''*'' # d # z \<and> is_digit d"
  by (auto simp: plus_def)

lemma match_at_None:
  "(\<And>s' g'. \<not> den ic r s Map.empty s' g') \<Longrightarrow> match_at ic r s = None"
  by (simp add: match_at_def rx_match_None)

lemma no_start_in_junk:
  assumes j: "list_all (\<lambda>c. \<not> is_digit c) j" and s: "list_all (\<lambda>c. \<not> is_digit c) (take 2 s)"
      and u: "j = v @ u" "u \<noteq> []"
  shows "match_at ic (seq (lits ''**'' # Group 1 (seq (plus True Digit # rs1)) # rs2)) (u @ s) = None"
proof (rule match_at_None)
  fix s' g'
  show "\<not> den ic (seq (lits ''**'' # Group 1 (seq (plus True Digit # rs1)) # rs2))
          (u @ s) Map.empty s' g'"
  proof
    assume "den ic (seq (lits ''**'' # Group 1 (seq (plus True Digit # rs1)) # rs2))
          (u @ s) Map.empty s' g'"
    then obtain d z where eq: "u @ s = CHR ''*'' # CHR ''*'' # d # z" and d: "is_digit d"
      using den_header_start by blast
    have nu: "list_all (\<lambda>c. \<not> is_digit c) u" using j u by simp
    have star: "\<not> is_digit CHR ''*''" by (simp add: is_digit_def)
    show False
    proof (cases u)
      case Nil
      with u show False by simp
    next
      case (Cons a u1)
      show False
      proof (cases u1)
        case Nil
        with Cons eq s d show False by (cases s) auto
      next
        case (Cons b u2)
        with \<open>u = a # u1\<close> eq nu s d show False by (cases u2) auto
      qed
    qed
  qed
qed

lemma no_start_at_space:
  assumes "\<forall>x \<in> set w. is_space x" "w = v @ u" "u \<noteq> []"
  shows "match_at ic (seq (lits ''**'' # rs)) (u @ s) = None"
proof -
  obtain c u' where "u = c # u'" using assms(3) by (cases u) auto
  moreover from this assms have "c \<noteq> CHR ''*''" by (auto simp: is_space_def)
  ultimately show ?thesis by (simp add: match_at_def)
qed

subsection \<open>The pattern of \<^verbatim>\<open>app1.py\<close> and of \<^verbatim>\<open>app2.py\<close> on a block\<close>

lemma run_header_blank:
  assumes rest: "rx_match ic (seq rs) s (g(1 \<mapsto> num @ ''. '' @ q)) k = Some res"
      and num: "num \<noteq> []" "list_all is_digit num"
      and q: "CHR ''*'' \<notin> set q"
  shows "rx_match ic (seq (lits ''**''
            # Group 1 (seq [plus True Digit, lits ''. '', Star False Any])
            # lits ''**'' # rs)) (''**'' @ num @ ''. '' @ q @ ''**'' @ s) g k = Some res"
proof -
  obtain d ds where nd: "num = d # ds" using num(1) by (cases num) auto
  let ?S = "num @ ''. '' @ q @ ''**'' @ s"
  let ?K = "\<lambda>s' g'. rx_match ic (seq (lits ''**'' # rs)) s'
                        (g'(1 \<mapsto> take (length ?S - length s') ?S)) k"
  have lazy: "rx_match ic (Star False Any) (q @ ''**'' @ s) g ?K = Some res"
  proof (rule rx_match_lazy_skip)
    have "take (length ?S - length (''**'' @ s)) ?S = num @ ''. '' @ q"
      by simp
    then show "?K (''**'' @ s) g = Some res" using rest by simp
    show "?K (u @ ''**'' @ s) g = None" if "q = v @ u" "u \<noteq> []" for v u
      using that q by (cases u) auto
  qed
  have "rx_match ic (Star True Digit) (ds @ ''. '' @ q @ ''**'' @ s) g
          (\<lambda>s' g'. rx_match ic (seq [lits ''. '', Star False Any]) s' g' ?K) = Some res"
  proof (rule rx_match_greedy_all)
    show "\<forall>x \<in> set ds. cls_match ic Digit x" using num(2) nd by (simp add: list_all_iff)
    show "''. '' @ q @ ''**'' @ s = [] \<or> \<not> cls_match ic Digit (hd (''. '' @ q @ ''**'' @ s))"
      by (simp add: is_digit_def)
    show "rx_match ic (seq [lits ''. '', Star False Any]) (''. '' @ q @ ''**'' @ s) g ?K
            = Some res"
      using lazy by simp
  qed
  then show ?thesis using num(2) nd by (simp add: plus_def)
qed

lemma block_open_eq:
  "block_open f b @ rest =
     ''**'' @ number b @ ''. '' @ qtext b @ ''**'' @
     nl @ f CHR ''A'' # '') '' @ opt_a b @
     nl @ f CHR ''B'' # '') '' @ opt_b b @
     nl @ f CHR ''C'' # '') '' @ opt_c b @
     nl @ f CHR ''D'' # '') '' @ opt_d b @
     nl @ (''**'' @ map f ''Correct Answer:'') @ '' '' @ f (answer b) # rest"
  by (simp add: block_open_def option_line_def)

lemma block_caps_eq:
  "block_caps f b =
     [1 \<mapsto> number b @ ''. '' @ qtext b]
       (2 \<mapsto> f CHR ''A'' # '') '' @ opt_a b, 3 \<mapsto> f CHR ''B'' # '') '' @ opt_b b,
        4 \<mapsto> f CHR ''C'' # '') '' @ opt_c b, 5 \<mapsto> f CHR ''D'' # '') '' @ opt_d b,
        6 \<mapsto> [f (answer b)])"
  by (simp add: block_caps_def option_line_def)

lemma rx_match_question_pattern:
  assumes f: "\<And>c. cls_match True (Lit c) (f c)" and wf: "plain_block b"
  shows "rx_match True question_pattern (block_open f b @ rest) Map.empty (\<lambda>s g. Some (s, g))
         = Some (dropWhile is_space rest, block_caps f b)"
  unfolding question_pattern_def block_open_eq block_caps_eq
  by (rule run_header, rule run_body) (use f wf in \<open>simp_all add: plain_block_def\<close>)

lemma rx_match_pattern:
  assumes f: "\<And>c. cls_match True (Lit c) (f c)" and wf: "plain_block b"
  shows "rx_match True pattern (block_open f b @ rest) Map.empty (\<lambda>s g. Some (s, g))
         = Some (dropWhile is_space rest, block_caps f b)"
  unfolding pattern_def block_open_eq block_caps_eq
  by (rule run_header_blank, rule run_body) (use f wf in \<open>simp_all add: plain_block_def\<close>)

lemma length_minus_dropWhile:
  "length (B @ rest) - length (dropWhile p rest) = length B + length (takeWhile p rest)"
proof -
  have "length rest = length (takeWhile p rest) + length (dropWhile p rest)"
    by (metis length_append takeWhile_dropWhile_id)
  then show ?thesis by simp
qed

lemma match_at_question_pattern:
  assumes "\<And>c. cls_match True (Lit c) (f c)" and "plain_block b"
  shows "match_at True question_pattern (block_open f b @ rest)
         = Some (length (block_open f b) + length (takeWhile is_space rest), block_caps f b)"
  unfolding match_at_def rx_match_question_pattern [OF assms]
  by (simp add: length_minus_dropWhile del: length_append)

lemma match_at_pattern:
  assumes "\<And>c. cls_match True (Lit c) (f c)" and "plain_block b"
  shows "match_at True pattern (block_open f b @ rest)
         = Some (length (block_open f b) + length (takeWhile is_space rest), block_caps f b)"
  unfolding match_at_def rx_match_pattern [OF assms]
  by (simp add: length_minus_dropWhile del: length_append)

subsection \<open>Documents\<close>


lemma block_open_starts: "\<exists>z. block_open f b = CHR ''*'' # CHR ''*'' # z"
  by (simp add: block_open_def)

lemma block_open_take2: "list_all (\<lambda>c. \<not> is_digit c) (take 2 (block_open f b @ s))"
  by (simp add: block_open_def is_digit_def)

text \<open>
  The common shape of the three patterns that start a question:
  \<^verbatim>\<open>\*\*(\d+...)...\<close>.
\<close>

lemma re_finditer_document:
  fixes r :: rx
  assumes shape: "r = seq (lits ''**'' # Group 1 (seq (plus True Digit # rs1)) # rs2)"
      and hit: "\<And>b rest. plain_block b \<Longrightarrow> match_at ic r (block_open f b @ rest)
                  = Some (length (block_open f b) + length (takeWhile is_space rest), block_caps f b)"
      and j: "list_all (\<lambda>c. \<not> is_digit c) j"
      and t: "list_all (\<lambda>c. \<not> is_digit c) (take 2 t)"
      and bs: "list_all (\<lambda>(b, k). plain_block b \<and> list_all (\<lambda>c. \<not> is_digit c) k) bs"
  shows "re_finditer ic r (j @ concat (map (\<lambda>(b, k). block_open f b @ k) bs) @ t)
         = map (\<lambda>(b, w). block_caps f b) bs @ re_finditer ic r t"
  using j bs
proof (induction bs arbitrary: j)
  case Nil
  have "re_finditer ic r (j @ t) = re_finditer ic r t"
    by (rule re_finditer_skip) (unfold shape, rule no_start_in_junk [OF Nil.prems(1) t])
  then show ?case by simp
next
  case (Cons bw bs)
  obtain b w where bw: "bw = (b, w)" by (cases bw)
  from Cons.prems bw have wf: "plain_block b" and w: "list_all (\<lambda>c. \<not> is_digit c) w"
      and bs: "list_all (\<lambda>(b, k). plain_block b \<and> list_all (\<lambda>c. \<not> is_digit c) k) bs"
    by simp_all
  let ?rest = "concat (map (\<lambda>(b, k). block_open f b @ k) bs) @ t"
  have "re_finditer ic r (j @ block_open f b @ w @ ?rest)
      = block_caps f b # re_finditer ic r (w @ ?rest)"
  proof (rule re_finditer_block)
    show "match_at ic r (u @ block_open f b @ w @ ?rest) = None"
      if "j = v @ u" "u \<noteq> []" for v u
      unfolding shape
      by (rule no_start_in_junk [OF Cons.prems(1) block_open_take2 that])
    show "match_at ic r (block_open f b @ w @ ?rest)
        = Some (length (block_open f b) + length (takeWhile is_space (w @ ?rest)),
                block_caps f b)"
      by (rule hit [OF wf])
    show "block_open f b \<noteq> []" by (simp add: block_open_def)
    show "match_at ic r (u @ dropWhile is_space (w @ ?rest)) = None"
      if "takeWhile is_space (w @ ?rest) = v @ u" "u \<noteq> []" for v u
      unfolding shape
      by (rule no_start_at_space [OF _ that]) (metis set_takeWhileD)
  qed
  moreover have "re_finditer ic r (w @ ?rest)
      = map (\<lambda>(b, w). block_caps f b) bs @ re_finditer ic r t"
    by (rule Cons.IH [OF w bs])
  ultimately show ?case by (simp add: bw)
qed

lemma re_finditer_digit_free:
  assumes shape: "r = seq (lits ''**'' # Group 1 (seq (plus True Digit # rs1)) # rs2)"
      and t: "list_all (\<lambda>c. \<not> is_digit c) t"
  shows "re_finditer ic r t = []"
proof (rule re_finditer_none)
  fix v u
  assume vu: "t = v @ u"
  show "match_at ic r u = None"
  proof (rule match_at_None)
    fix s' g'
    show "\<not> den ic r u Map.empty s' g'"
    proof
      assume "den ic r u Map.empty s' g'"
      then obtain d z where "u = CHR ''*'' # CHR ''*'' # d # z" "is_digit d"
        unfolding shape using den_header_start by blast
      with t vu show False by simp
    qed
  qed
qed

subsection \<open>Stripping\<close>

lemma strip_id:
  assumes "s = [] \<or> (\<not> is_space (hd s) \<and> \<not> is_space (last s))"
  shows "strip s = s"
proof (cases s)
  case Nil
  then show ?thesis by (simp add: strip_def)
next
  case (Cons c cs)
  with assms have h: "\<not> is_space c" and l: "\<not> is_space (last s)" by auto
  from h Cons have 1: "dropWhile is_space s = s" by simp
  obtain x xs where r: "rev s = x # xs" using Cons by (cases "rev s") auto
  have "hd (rev s) = last s" using Cons by (simp add: hd_rev)
  with r have "x = last s" by simp
  with l have "dropWhile is_space (x # xs) = x # xs" by simp
  then have 2: "dropWhile is_space (rev s) = rev s" by (simp only: r)
  show ?thesis by (simp only: strip_def 1 2 rev_rev_ident)
qed

lemma strip_ends: "strip s = [] \<or> (\<not> is_space (hd (strip s)) \<and> \<not> is_space (last (strip s)))"
proof -
  let ?a = "dropWhile is_space s"
  let ?b = "dropWhile is_space (rev ?a)"
  have s: "strip s = rev ?b" by (simp add: strip_def)
  show ?thesis
  proof (cases "?b = []")
    case True
    then show ?thesis using s by simp
  next
    case False
    then have hb: "\<not> is_space (hd ?b)" by (metis hd_dropWhile)
    obtain p where p: "rev ?a = p @ ?b" by (metis takeWhile_dropWhile_id)
    have "rev ?a \<noteq> []" using p False by (metis append_is_Nil_conv)
    then have "?a \<noteq> []" by simp
    then have ha: "\<not> is_space (hd ?a)" by (metis hd_dropWhile)
    from p have "?a = rev ?b @ rev p" by (metis rev_append rev_rev_ident)
    then have "hd ?a = hd (rev ?b)" using False by (metis hd_append2 rev_is_Nil_conv)
    with ha hb False show ?thesis unfolding s by (simp add: last_rev)
  qed
qed

lemma strip_idem [simp]: "strip (strip s) = strip s"
  by (rule strip_id) (rule strip_ends)

lemma strip_set: "set (strip s) \<subseteq> set s"
  unfolding strip_def by (metis set_dropWhileD set_rev subsetI)

lemma is_space_label: "cls_match ic (Lit c) l \<Longrightarrow> c \<in> set ''ABCD'' \<Longrightarrow> \<not> is_space l"
  by (erule cls_match_Lit_space) (auto simp: is_space_def)

lemma strip_option_line:
  assumes "\<And>c. cls_match ic (Lit c) (f c)" "l \<in> set ''ABCD''" "plain_text t"
  shows "strip (option_line f l t) = option_line f l t"
proof (rule strip_id)
  have "\<not> is_space (f l)" using assms(1,2) is_space_label by blast
  moreover have "last (option_line f l t) = last t" using assms(3)
    by (simp add: option_line_def plain_text_def)
  ultimately show "option_line f l t = [] \<or>
      (\<not> is_space (hd (option_line f l t)) \<and> \<not> is_space (last (option_line f l t)))"
    using assms(3) by (simp add: option_line_def plain_text_def)
qed

lemma strip_answer:
  assumes "\<And>c. cls_match ic (Lit c) (f c)" "a \<in> set ''ABCD''"
  shows "strip [f a] = [f a]"
  by (rule strip_id) (use assms is_space_label in auto)

subsection \<open>\<^verbatim>\<open>app1.py\<close> and \<^verbatim>\<open>app2.py\<close> on a document\<close>

lemma question_of_match_block:
  assumes f: "\<And>c. cls_match ic (Lit c) (f c)" and wf: "plain_block b"
  shows "question_of_match (groups6 (block_caps f b)) = question_of_block f b"
proof -
  have "strip (option_line f CHR ''A'' (opt_a b)) = option_line f CHR ''A'' (opt_a b)"
       "strip (option_line f CHR ''B'' (opt_b b)) = option_line f CHR ''B'' (opt_b b)"
       "strip (option_line f CHR ''C'' (opt_c b)) = option_line f CHR ''C'' (opt_c b)"
       "strip (option_line f CHR ''D'' (opt_d b)) = option_line f CHR ''D'' (opt_d b)"
    using wf by (auto intro!: strip_option_line [OF f] simp: plain_block_def)
  moreover have "strip [f (answer b)] = [f (answer b)]"
    using wf by (intro strip_answer [OF f]) (simp add: plain_block_def)
  ultimately show ?thesis
    by (simp add: question_of_match_def question_of_block_def groups6_def grp_def
        block_caps_def nl_def Let_def)
qed

lemma append_questions_map:
  "append_questions ms acc = acc @ map question_of_match ms"
  by (induction ms arbitrary: acc) simp_all

lemma page_entry_eq: "page_entry = question_of_match"
  by (auto simp: fun_eq_iff question_of_match_def page_entry_def)

lemma append_page_map: "append_page ms acc = acc @ map question_of_match ms"
  by (induction ms arbitrary: acc) (simp_all add: page_entry_eq)

lemma parse_questions_app1_map:
  "parse_questions_app1 raw = map question_of_match (re_findall6 True question_pattern raw)"
  by (simp add: parse_questions_app1_def append_questions_map)

lemma generate_questions_page_map:
  "generate_questions_page raw =
     map question_of_match
       (if re_findall6 True pattern raw = [] \<and> contains ''```'' raw
        then re_findall6 True pattern (strip (replace ''```'' [] raw))
        else re_findall6 True pattern raw)"
  by (simp add: generate_questions_page_def append_page_map Let_def)

lemma question_pattern_shape:
  "\<exists>rs1 rs2. question_pattern = seq (lits ''**'' # Group 1 (seq (plus True Digit # rs1)) # rs2)"
  unfolding question_pattern_def by blast

lemma pattern_shape:
  "\<exists>rs1 rs2. pattern = seq (lits ''**'' # Group 1 (seq (plus True Digit # rs1)) # rs2)"
  unfolding pattern_def by blast

lemma re_findall6_document:
  assumes shape: "r = seq (lits ''**'' # Group 1 (seq (plus True Digit # rs1)) # rs2)"
      and hit: "\<And>b rest. plain_block b \<Longrightarrow> match_at ic r (block_open f b @ rest)
                  = Some (length (block_open f b) + length (takeWhile is_space rest), block_caps f b)"
      and f: "\<And>c. cls_match ic (Lit c) (f c)"
      and j: "list_all (\<lambda>c. \<not> is_digit c) j"
      and t: "list_all (\<lambda>c. \<not> is_digit c) (take 2 t)"
      and bs: "list_all (\<lambda>(b, k). plain_block b \<and> list_all (\<lambda>c. \<not> is_digit c) k) bs"
  shows "map question_of_match
           (re_findall6 ic r (j @ concat (map (\<lambda>(b, k). block_open f b @ k) bs) @ t))
         = map (\<lambda>(b, w). question_of_block f b) bs @ map question_of_match (re_findall6 ic r t)"
proof -
  have "map (\<lambda>(b, w). question_of_match (groups6 (block_caps f b))) bs
      = map (\<lambda>(b, w). question_of_block f b) bs"
    using bs by (induction bs) (auto simp: question_of_match_block [OF f])
  moreover have "re_finditer ic r (j @ concat (map (\<lambda>(b, k). block_open f b @ k) bs) @ t)
      = map (\<lambda>(b, w). block_caps f b) bs @ re_finditer ic r t"
    by (rule re_finditer_document [OF shape hit j t bs])
  ultimately show ?thesis
    by (simp add: re_findall6_def comp_def case_prod_unfold)
qed

lemma parse_questions_app1_document:
  assumes f: "\<And>c. cls_match True (Lit c) (f c)"
      and j: "list_all (\<lambda>c. \<not> is_digit c) j"
      and t: "list_all (\<lambda>c. \<not> is_digit c) (take 2 t)"
      and bs: "list_all (\<lambda>(b, k). plain_block b \<and> list_all (\<lambda>c. \<not> is_digit c) k) bs"
  shows "parse_questions_app1 (j @ concat (map (\<lambda>(b, k). block_open f b @ k) bs) @ t)
         = map (\<lambda>(b, w). question_of_block f b) bs @ parse_questions_app1 t"
proof -
  obtain rs1 rs2
    where shape: "question_pattern = seq (lits ''**'' # Group 1 (seq (plus True Digit # rs1)) # rs2)"
    using question_pattern_shape by blast
  show ?thesis
    unfolding parse_questions_app1_map
    by (rule re_findall6_document [OF shape match_at_question_pattern [OF f] f j t bs])
qed

lemma parse_questions_app1_digit_free:
  assumes "list_all (\<lambda>c. \<not> is_digit c) t"
  shows "parse_questions_app1 t = []"
proof -
  obtain rs1 rs2
    where shape: "question_pattern = seq (lits ''**'' # Group 1 (seq (plus True Digit # rs1)) # rs2)"
    using question_pattern_shape by blast
  show ?thesis
    by (simp add: parse_questions_app1_map re_findall6_def re_finditer_digit_free [OF shape assms])
qed

lemma replace_set: "set (replace old [] s) \<subseteq> set s"
proof (induction old "[] :: string" s rule: replace.induct)
  case (1 old s)
  show ?case
  proof (cases "s = [] \<or> old = []")
    case True
    then show ?thesis by (subst replace.simps) simp
  next
    case False
    show ?thesis
    proof (cases "take (length old) s = old")
      case True
      with False 1(1) have "set (replace old [] (drop (length old) s)) \<subseteq> set (drop (length old) s)"
        by simp
      moreover have "set (drop (length old) s) \<subseteq> set s" by (rule set_drop_subset)
      ultimately show ?thesis using False True by (subst replace.simps) auto
    next
      case F2: False
      with False 1(2) have "set (replace old [] (tl s)) \<subseteq> set (tl s)" by simp
      moreover have "set (tl s) \<subseteq> set s" using False by (cases s) auto
      moreover have "hd s \<in> set s" using False by (cases s) auto
      ultimately show ?thesis using False F2 by (subst replace.simps) auto
    qed
  qed
qed

lemma generate_questions_page_document:
  assumes f: "\<And>c. cls_match True (Lit c) (f c)"
      and j: "list_all (\<lambda>c. \<not> is_digit c) j"
      and t: "list_all (\<lambda>c. \<not> is_digit c) t"
      and bs: "list_all (\<lambda>(b, k). plain_block b \<and> list_all (\<lambda>c. \<not> is_digit c) k) bs"
  shows "generate_questions_page (j @ concat (map (\<lambda>(b, k). block_open f b @ k) bs) @ t)
         = map (\<lambda>(b, w). question_of_block f b) bs"
proof -
  obtain rs1 rs2
    where shape: "pattern = seq (lits ''**'' # Group 1 (seq (plus True Digit # rs1)) # rs2)"
    using pattern_shape by blast
  let ?raw = "j @ concat (map (\<lambda>(b, k). block_open f b @ k) bs) @ t"
  have t2: "list_all (\<lambda>c. \<not> is_digit c) (take 2 t)"
    using t by (metis append_take_drop_id list_all_append)
  have none: "re_findall6 True pattern s = []" if "list_all (\<lambda>c. \<not> is_digit c) s" for s
    by (simp add: re_findall6_def re_finditer_digit_free [OF shape that])
  have m: "map question_of_match (re_findall6 True pattern ?raw)
         = map (\<lambda>(b, w). question_of_block f b) bs"
    using re_findall6_document [OF shape match_at_pattern [OF f] f j t2 bs] none [OF t] by simp
  show ?thesis
  proof (cases bs)
    case Nil
    then have raw: "list_all (\<lambda>c. \<not> is_digit c) ?raw" using j t by simp
    have "set (strip (replace ''```'' [] ?raw)) \<subseteq> set ?raw"
      using strip_set replace_set by (meson subset_trans)
    with raw have "list_all (\<lambda>c. \<not> is_digit c) (strip (replace ''```'' [] ?raw))"
      unfolding list_all_iff by blast
    then show ?thesis
      unfolding generate_questions_page_map
      using Nil none [OF raw] by (simp add: none)
  next
    case (Cons bw bs')
    with m have "re_findall6 True pattern ?raw \<noteq> []" by auto
    then show ?thesis
      unfolding generate_questions_page_map using m by simp
  qed
qed

subsection \<open>Splitting\<close>

lemma re_split_first: "\<exists>p xs. re_split ic r s = Some p # xs"
  by (subst re_split.simps) (auto split: option.splits)

lemma re_split_skip:
  assumes skip: "\<And>v u. c = v @ u \<Longrightarrow> u \<noteq> [] \<Longrightarrow> match_at ic r (u @ s) = None"
      and s: "re_split ic r s = Some p # xs"
  shows "re_split ic r (c @ s) = Some (c @ p) # xs"
proof -
  have rs: "re_search ic r (c @ s)
      = map_option (\<lambda>(i, n, g). (length c + i, n, g)) (re_search ic r s)"
    by (rule re_search_skip) (rule skip)
  show ?thesis
  proof (cases "re_search ic r s")
    case None
    with s have "p = s" "xs = []" by (subst (asm) re_split.simps, simp)+
    with None rs show ?thesis by (subst re_split.simps) simp
  next
    case (Some m)
    obtain i n g where m: "m = (i, n, g)" by (cases m)
    from s Some m have p: "p = take i s"
        and xs: "xs = g 1 # (if i < length s then re_split ic r (drop (i + max n 1) s)
                                 else [Some []])"
      by (subst (asm) re_split.simps, simp)+
    show ?thesis
      using Some m rs by (subst re_split.simps) (simp add: p xs add.assoc)
  qed
qed

lemma re_split_hit:
  assumes skip: "\<And>v u. j = v @ u \<Longrightarrow> u \<noteq> [] \<Longrightarrow> match_at ic r (u @ H @ rest) = None"
      and hit: "match_at ic r (H @ rest) = Some (length H, g)"
      and H: "H \<noteq> []"
  shows "re_split ic r (j @ H @ rest) = Some j # g 1 # re_split ic r rest"
proof -
  have "re_search ic r (j @ H @ rest) = Some (length j, length H, g)"
    using re_search_skip [of j ic r "H @ rest", OF skip] re_search_hit [OF hit] by simp
  moreover have "max (length H) 1 = length H" using H by (cases H) auto
  ultimately show ?thesis using H by (subst re_split.simps) simp
qed

subsection \<open>The loop of \<^verbatim>\<open>app.py\<close>\<close>

lemma py_range_odd: "py_range (Suc 0) n 2 = map (\<lambda>k. Suc (k * 2)) [0 ..< n div 2]"
proof -
  have "(n - Suc 0 + 2 - 1) div 2 = n div 2" by (cases n) auto
  then show ?thesis by (simp add: py_range_def)
qed

lemma upt_0_Suc: "[0 ..< Suc m] = 0 # map Suc [0 ..< m]"
  by (simp only: upt_conv_Cons [of 0 "Suc m"] map_Suc_upt zero_less_Suc)

lemma py_range_step:
  "py_range (Suc 0) (Suc (Suc n)) 2 = Suc 0 # map (\<lambda>i. Suc (Suc i)) (py_range (Suc 0) n 2)"
proof -
  have "Suc (Suc n) div 2 = Suc (n div 2)" by simp
  then show ?thesis by (simp only: py_range_odd upt_0_Suc) (simp add: comp_def)
qed

lemma parse_block_shift: "parse_block (x # y # qb) (Suc (Suc i)) acc = parse_block qb i acc"
  by (simp add: parse_block_def index_def)

lemma parse_loop_shift:
  "parse_loop (x # y # qb) (map (\<lambda>i. Suc (Suc i)) is) acc = parse_loop qb is acc"
  by (induction "is" arbitrary: acc) (simp_all add: parse_block_shift split: sum.splits)

lemma parse_block_pair:
  "parse_block (p # q # c # xs) (Suc 0) acc = parse_block [p', q, c] (Suc 0) acc"
  by (simp add: parse_block_def index_def)

lemma parse_range_single: "parse_loop [x] (py_range (Suc 0) (length [x]) 2) acc = Inr acc"
  by (simp add: py_range_odd)

lemma parse_range_step:
  "parse_loop (p # q # c # xs) (py_range (Suc 0) (length (p # q # c # xs)) 2) acc =
     (case parse_block [p, q, c] (Suc 0) acc of
        Inl e \<Rightarrow> Inl e
      | Inr acc' \<Rightarrow> parse_loop (c # xs) (py_range (Suc 0) (length (c # xs)) 2) acc')"
proof -
  have "parse_block (p # q # c # xs) (Suc 0) acc = parse_block [p, q, c] (Suc 0) acc"
    by (rule parse_block_pair)
  then show ?thesis
    by (simp add: py_range_step parse_loop_shift split: sum.splits)
qed

lemma parse_range_head:
  "parse_loop (x # xs) (py_range (Suc 0) (length (x # xs)) 2) acc
   = parse_loop (y # xs) (py_range (Suc 0) (length (y # xs)) 2) acc"
proof (cases xs)
  case Nil
  then show ?thesis by (simp add: py_range_odd)
next
  case (Cons q xs1)
  show ?thesis
  proof (cases xs1)
    case Nil
    with Cons show ?thesis by (simp add: py_range_odd parse_block_def index_def)
  next
    case (Cons c xs2)
    have "parse_block [x, q, c] (Suc 0) acc = parse_block [y, q, c] (Suc 0) acc"
      by (rule parse_block_pair)
    with Cons \<open>xs = q # xs1\<close> show ?thesis
      by (simp only: parse_range_step)
  qed
qed

subsection \<open>The two inner patterns of \<^verbatim>\<open>app.py\<close>\<close>

lemma gap_contra:
  assumes eq: "u @ v = sp @ l # CHR '')'' # z" and sp: "\<forall>x \<in> set sp. is_space x"
      and u: "u \<noteq> []" "\<not> is_space (last u)" "CHR '')'' \<notin> set u"
      and v: "v \<noteq> [] \<Longrightarrow> hd v \<noteq> CHR '')''"
  shows False
proof -
  from eq consider (a) y where "u = sp @ y" "y @ v = l # CHR '')'' # z"
    | (b) y where "u @ y = sp" "v = y @ l # CHR '')'' # z"
    by (auto simp: append_eq_append_conv2)
  then show False
  proof cases
    case a
    show False
    proof (cases y)
      case Nil
      with a u sp show False by auto
    next
      case (Cons c y')
      show False
      proof (cases y')
        case Nil
        with Cons a v show False by (cases v) auto
      next
        case (Cons c' y'')
        with \<open>y = c # y'\<close> a u(3) show False by auto
      qed
    qed
  next
    case b
    with u sp show False by auto
  qed
qed

lemma all_space_contra:
  assumes "u @ v = sp @ e" "\<forall>x \<in> set sp. is_space x" "\<forall>x \<in> set e. is_space x"
      and "u \<noteq> []" "\<not> is_space (last u)"
  shows False
proof -
  have "last u \<in> set (u @ v)" using assms(4) by simp
  with assms(1,2,3) have "is_space (last u)" by auto
  with assms(5) show False by simp
qed

lemma cls_match_OneOf_False [simp]: "cls_match False (OneOf as) c \<longleftrightarrow> c \<in> set as"
  by (simp add: cls_match.simps(5))

lemma cls_match_Lit_False [simp]: "cls_match False (Lit a) c \<longleftrightarrow> c = a"
  by (simp add: cls_match.simps(1))

text \<open>\<^verbatim>\<open>(?=\s*[A-D]\)|\s*$)\<close>\<close>

lemma den_alt1:
  "den ic (seq [Star True Space, Chr c, lits '')'']) s g s' g' \<Longrightarrow>
   \<exists>sp l z. s = sp @ l # CHR '')'' # z \<and> (\<forall>x \<in> set sp. is_space x)"
  by auto

lemma den_alt2:
  "den ic (seq [Star True Space, Eos]) s g s' g' \<Longrightarrow>
   \<exists>sp. (\<forall>x \<in> set sp. is_space x) \<and> (s = sp \<or> s = sp @ [CHR 0x0A])"
  by auto


lemma ahead_fail:
  assumes u: "u \<noteq> []" "\<not> is_space (last u)" "CHR '')'' \<notin> set u"
      and v: "v \<noteq> [] \<Longrightarrow> hd v \<noteq> CHR '')''"
  shows "rx_match False
           (Ahead (Alt (seq [Star True Space, Chr (OneOf ''ABCD''), lits '')''])
                       (seq [Star True Space, Eos]))) (u @ v) g k = None"
proof (rule rx_match_None)
  fix s' g'
  let ?r = "Ahead (Alt (seq [Star True Space, Chr (OneOf ''ABCD''), lits '')''])
                       (seq [Star True Space, Eos]))"
  show "\<not> den False ?r (u @ v) g s' g'"
  proof
    assume "den False ?r (u @ v) g s' g'"
    then obtain s1 g1 where
      "den False (seq [Star True Space, Chr (OneOf ''ABCD''), lits '')'']) (u @ v) g s1 g1
       \<or> den False (seq [Star True Space, Eos]) (u @ v) g s1 g1"
      by (simp only: den.simps) blast
    then consider (a) sp l z where "u @ v = sp @ l # CHR '')'' # z" "\<forall>x \<in> set sp. is_space x"
      | (b) sp e where "u @ v = sp @ e" "\<forall>x \<in> set sp. is_space x" "e = [] \<or> e = [CHR 0x0A]"
      using den_alt1 den_alt2 by (metis append_Nil2)
    then show False
    proof cases
      case a
      show False by (rule gap_contra [OF a(1) a(2) u]) (rule v)
    next
      case b
      from b(3) have e: "\<forall>x \<in> set e. is_space x" by (auto simp: is_space_def)
      show False by (rule all_space_contra [OF b(1) b(2) e u(1) u(2)])
    qed
  qed
qed

lemma ahead_end:
  "rx_match False
     (Ahead (Alt (seq [Star True Space, Chr (OneOf ''ABCD''), lits '')''])
                 (seq [Star True Space, Eos]))) [] g k = k [] g"
  by simp

lemma ahead_label:
  assumes "L \<in> set ''ABCD''"
  shows "rx_match False
           (Ahead (Alt (seq [Star True Space, Chr (OneOf ''ABCD''), lits '')''])
                       (seq [Star True Space, Eos]))) (nl @ L # CHR '')'' # z) g k
         = k (nl @ L # CHR '')'' # z) g"
proof -
  have "\<not> is_space L" using assms by (auto simp: is_space_def)
  then show ?thesis using assms by (simp add: nl_def is_space_def)
qed

lemma match_at_option:
  assumes L: "L \<in> set ''ABCD''" and t: "plain_text t"
      and rest: "rest = [] \<or> (\<exists>L' z. rest = nl @ L' # CHR '')'' # z \<and> L' \<in> set ''ABCD'')"
  shows "match_at False options_list_pattern (L # '') '' @ t @ rest)
         = Some (length (L # '') '' @ t), [1 \<mapsto> L # '') '' @ t])"
proof -
  let ?A = "Ahead (Alt (seq [Star True Space, Chr (OneOf ''ABCD''), lits '')''])
                       (seq [Star True Space, Eos]))"
  let ?S = "L # '') '' @ t @ rest"
  let ?k = "\<lambda>s (g :: caps). Some (s, g)"
  let ?K = "\<lambda>s' g'. rx_match False (seq [?A]) s' (g'(1 \<mapsto> take (length ?S - length s') ?S)) ?k"
  have hd_rest: "rest \<noteq> [] \<Longrightarrow> hd rest \<noteq> CHR '')''"
    using rest by (auto simp: nl_def)
  have ok: "rx_match False ?A rest g ?k = Some (rest, g)" for g
  proof (cases "rest = []")
    case True
    then show ?thesis by (simp only: ahead_end)
  next
    case False
    with rest obtain L' z where "rest = nl @ L' # CHR '')'' # z" "L' \<in> set ''ABCD''" by blast
    then show ?thesis by (simp only: ahead_label)
  qed
  have "rx_match False (Star False Any) (t @ rest) Map.empty ?K
        = Some (rest, [1 \<mapsto> L # '') '' @ t])"
  proof (rule rx_match_lazy_skip)
    show "?K rest Map.empty = Some (rest, [1 \<mapsto> L # '') '' @ t])"
      using ok by (simp add: Suc_diff_le)
    show "?K (u @ rest) Map.empty = None" if "t = v @ u" "u \<noteq> []" for v u
    proof -
      have "rx_match False ?A (u @ rest) g ?k = None" for g
        by (rule ahead_fail) (use that plain_text_suffix [OF t that] hd_rest in auto)
      then show ?thesis by simp
    qed
  qed
  then have "rx_match False options_list_pattern ?S Map.empty ?k
        = Some (rest, [1 \<mapsto> L # '') '' @ t])"
    using L by (simp add: options_list_pattern_def plus_def)
  then show ?thesis by (simp add: match_at_def)
qed

lemma no_option_at_space:
  assumes "\<forall>x \<in> set w. is_space x" "w = v @ u" "u \<noteq> []"
  shows "match_at False options_list_pattern (u @ s) = None"
proof -
  obtain c u' where "u = c # u'" using assms(3) by (cases u) auto
  moreover from this assms have "c \<notin> set ''ABCD''" by (auto simp: is_space_def)
  ultimately show ?thesis by (simp add: match_at_def options_list_pattern_def)
qed

lemma re_finditer_option:
  assumes L: "L \<in> set ''ABCD''" and t: "plain_text t"
      and rest: "rest = [] \<or> (\<exists>L' z. rest = nl @ L' # CHR '')'' # z \<and> L' \<in> set ''ABCD'')"
      and w: "\<forall>x \<in> set w. is_space x"
  shows "re_finditer False options_list_pattern (w @ L # '') '' @ t @ rest)
         = [1 \<mapsto> L # '') '' @ t] # re_finditer False options_list_pattern rest"
proof -
  have "re_finditer False options_list_pattern (w @ (L # '') '' @ t) @ rest)
         = [1 \<mapsto> L # '') '' @ t] # re_finditer False options_list_pattern rest"
  proof (rule re_finditer_hit)
    show "match_at False options_list_pattern (u @ (L # '') '' @ t) @ rest) = None"
      if "w = v @ u" "u \<noteq> []" for v u
      by (rule no_option_at_space [OF w that])
    show "match_at False options_list_pattern ((L # '') '' @ t) @ rest)
        = Some (length (L # '') '' @ t), [1 \<mapsto> L # '') '' @ t])"
      using match_at_option [OF L t rest] by simp
    show "L # '') '' @ t \<noteq> []" by simp
  qed
  then show ?thesis by simp
qed

lemma re_findall1_options:
  assumes "plain_text ta" "plain_text tb" "plain_text tc" "plain_text td"
  shows "re_findall1 False options_list_pattern
           (''A) '' @ ta @ nl @ ''B) '' @ tb @ nl @ ''C) '' @ tc @ nl @ ''D) '' @ td)
         = [''A) '' @ ta, ''B) '' @ tb, ''C) '' @ tc, ''D) '' @ td]"
proof -
  have wnl: "\<forall>x \<in> set nl. is_space x" by (simp add: nl_def is_space_def)
  let ?D = "nl @ CHR ''D'' # '') '' @ td @ []"
  let ?C = "nl @ CHR ''C'' # '') '' @ tc @ ?D"
  let ?B = "nl @ CHR ''B'' # '') '' @ tb @ ?C"
  let ?A = "[] @ CHR ''A'' # '') '' @ ta @ ?B"
  let ?r = "re_finditer False options_list_pattern"
  have e: "?r [] = []"
    by (subst re_finditer.simps) (simp add: match_at_def options_list_pattern_def)
  have d: "?r ?D = [1 \<mapsto> CHR ''D'' # '') '' @ td] # ?r []"
    by (rule re_finditer_option [OF _ assms(4) _ wnl]) simp_all
  have c: "?r ?C = [1 \<mapsto> CHR ''C'' # '') '' @ tc] # ?r ?D"
    by (rule re_finditer_option [OF _ assms(3) _ wnl]) simp_all
  have b: "?r ?B = [1 \<mapsto> CHR ''B'' # '') '' @ tb] # ?r ?C"
    by (rule re_finditer_option [OF _ assms(2) _ wnl]) simp_all
  have a: "?r ?A = [1 \<mapsto> CHR ''A'' # '') '' @ ta] # ?r ?B"
    by (rule re_finditer_option [OF _ assms(1)]) simp_all
  have "?r ?A = [[1 \<mapsto> CHR ''A'' # '') '' @ ta], [1 \<mapsto> CHR ''B'' # '') '' @ tb],
                 [1 \<mapsto> CHR ''C'' # '') '' @ tc], [1 \<mapsto> CHR ''D'' # '') '' @ td]]"
    by (simp only: a b c d e)
  then show ?thesis
    by (simp add: re_findall1_def grp_def)
qed

subsection \<open>\<^verbatim>\<open>app.py\<close> on one content block\<close>

lemma id_matches: "cls_match ic (Lit c) ((\<lambda>c. c) c)"
  by simp

lemma re_search_options_and_answer:
  fixes ta tb tc td :: string and ans :: char and p :: string
  defines "t \<equiv> ta @ nl @ ''B) '' @ tb @ nl @ ''C) '' @ tc @ nl @ ''D) '' @ td"
  assumes wf: "plain_text ta" "plain_text tb" "plain_text tc" "plain_text td" "ans \<in> set ''ABCD''"
  shows "\<exists>n. re_search False options_and_answer_pattern
           (nl @ CHR ''A'' # '') '' @ t @ nl @ ''**Correct Answer:'' @ '' '' @ ans # p)
         = Some (length nl, n, [1 \<mapsto> CHR ''A'' # '') '' @ t, 2 \<mapsto> [ans]])"
proof -
  let ?k = "\<lambda>s (g :: caps). Some (s, g)"
  let ?R = "[lits ''**Correct Answer:'', Star True Space,
             Group 2 (Chr (OneOf ''ABCD'')), Star True Space]"
  let ?T = "''**Correct Answer:'' @ '' '' @ ans # p"
  let ?g1 = "[1 \<mapsto> CHR ''A'' # '') '' @ t]"
  let ?res = "(dropWhile is_space p, ?g1(2 \<mapsto> [ans]))"
  have wnl: "\<forall>x \<in> set nl. is_space x" by (simp add: nl_def is_space_def)
  have nsp: "\<not> is_space ans" using wf(5) by (auto simp: is_space_def)
  have tl: "t \<noteq> []" "last t = last td" "CHR ''*'' \<notin> set t"
    using wf by (auto simp: t_def plain_text_def nl_def)
  have 1: "rx_match False (seq ?R) ?T ?g1 ?k = Some ?res"
    by (rule run_answer) (use wf(5) nsp in \<open>simp_all add: list_all2_same is_space_def\<close>)
  have 2: "rx_match False (seq (Star True Space # ?R)) (nl @ ?T) ?g1 ?k = Some ?res"
    by (rule run_spaces [OF 1 wnl]) (simp add: is_space_def)
  have 3: "rx_match False (seq (Group 1 (seq [lits [CHR ''A'', CHR '')''], plus False Any])
              # Star True Space # ?R)) (CHR ''A'' # '') '' @ t @ nl @ ?T) Map.empty ?k = Some ?res"
  proof (rule run_option [OF 2])
    show "cls_match False (Lit CHR ''A'') CHR ''A''" by simp
    show "rx_match False (seq (Star True Space # ?R)) (u @ nl @ ?T) g' ?k = None"
      if "t = v @ u" "u \<noteq> []" for v u g'
    proof (rule gap_fail_star_seq [OF that(2)])
      from that have "last u = last t" by simp
      with tl(2) wf(4) show "\<not> is_space (last u)" by (simp add: plain_text_def)
      from that tl(3) show "CHR ''*'' \<notin> set u" by simp
    qed
  qed
  have len: "length (CHR ''A'' # '') '' @ t @ nl @ ?T) - length (dropWhile is_space p)
      = length (CHR ''A'' # '') '' @ t @ nl @ ''**Correct Answer:'' @ '' '' @ [ans])
        + length (takeWhile is_space p)"
    using length_minus_dropWhile [where B = "CHR ''A'' # '') '' @ t @ nl @ ''**Correct Answer:'' @ '' '' @ [ans]"
        and p = is_space and rest = p]
    by simp
  have hit: "match_at False options_and_answer_pattern (CHR ''A'' # '') '' @ t @ nl @ ?T)
      = Some (length (CHR ''A'' # '') '' @ t @ nl @ ''**Correct Answer:'' @ '' '' @ [ans])
                + length (takeWhile is_space p), ?g1(2 \<mapsto> [ans]))"
    unfolding match_at_def options_and_answer_pattern_def 3 using len by simp
  have skip: "match_at False options_and_answer_pattern (u @ CHR ''A'' # '') '' @ t @ nl @ ?T) = None"
    if vu: "nl = v @ u" "u \<noteq> []" for v u
  proof -
    obtain c u' where "u = c # u'" using vu(2) by (cases u) auto
    moreover from this vu have "c \<noteq> CHR ''A''" by (auto simp: nl_def Cons_eq_append_conv)
    ultimately show ?thesis by (simp add: match_at_def options_and_answer_pattern_def)
  qed
  show ?thesis
    using re_search_skip [of nl False options_and_answer_pattern, OF skip]
      re_search_hit [OF hit] by simp
qed

lemma block_open_split: "block_open f b = block_header b @ block_content f b"
  by (simp add: block_open_def block_header_def block_content_def)

lemma parse_questions_app_from: "parse_questions_app s = parse_from s []"
  by (simp add: parse_questions_app_def parse_from_def Let_def)

lemma block_content_id:
  "block_content (\<lambda>c. c) b @ p =
     nl @ CHR ''A'' # '') '' @
       (opt_a b @ nl @ ''B) '' @ opt_b b @ nl @ ''C) '' @ opt_c b @ nl @ ''D) '' @ opt_d b)
     @ nl @ ''**Correct Answer:'' @ '' '' @ answer b # p"
  by (simp add: block_content_def option_line_def)

lemma parse_block_content:
  assumes wf: "plain_block b"
  shows "parse_block [x, Some (number b @ ''. '' @ qtext b), Some (block_content (\<lambda>c. c) b @ p)]
           (Suc 0) acc
         = Inr (acc @ [question_of_block (\<lambda>c. c) b])"
proof -
  let ?t = "opt_a b @ nl @ ''B) '' @ opt_b b @ nl @ ''C) '' @ opt_c b @ nl @ ''D) '' @ opt_d b"
  from wf have t: "plain_text (opt_a b)" "plain_text (opt_b b)" "plain_text (opt_c b)" "plain_text (opt_d b)"
      and a: "answer b \<in> set ''ABCD''"
    by (simp_all add: plain_block_def)
  define OB where "OB = CHR ''A'' # '') '' @ ?t"
  obtain n where s: "re_search False options_and_answer_pattern (block_content (\<lambda>c. c) b @ p)
      = Some (length nl, n, [1 \<mapsto> OB, 2 \<mapsto> [answer b]])"
    unfolding block_content_id OB_def using re_search_options_and_answer [OF t a] by blast
  define OL where
    "OL = [''A) '' @ opt_a b, ''B) '' @ opt_b b, ''C) '' @ opt_c b, ''D) '' @ opt_d b]"
  have o: "re_findall1 False options_list_pattern OB = OL"
    unfolding OB_def OL_def using re_findall1_options [OF t] by simp
  have st: "strip (l # '') '' @ u) = l # '') '' @ u"
    if "l \<in> set ''ABCD''" "plain_text u" for l u
    using strip_option_line [of False "\<lambda>c. c", OF id_matches that]
    by (simp add: option_line_def)
  have sa: "strip [answer b] = [answer b]"
    using strip_answer [of False "\<lambda>c. c", OF id_matches a] by simp
  have j: "join [CHR 0x0A] (map strip OL) = options_text (question_of_block (\<lambda>c. c) b)"
    unfolding OL_def
    using st [of "CHR ''A''", OF _ t(1)] st [of "CHR ''B''", OF _ t(2)]
      st [of "CHR ''C''", OF _ t(3)] st [of "CHR ''D''", OF _ t(4)]
    by (simp add: question_of_block_def option_line_def nl_def)
  show ?thesis
    unfolding parse_block_def
    by (simp add: index_def s grp_def o j sa Let_def question_of_block_def)
qed

lemma match_at_header:
  assumes "number b \<noteq> []" "list_all is_digit (number b)" "CHR ''*'' \<notin> set (qtext b)"
  shows "match_at ic header_pattern (block_header b @ s)
         = Some (length (block_header b), [1 \<mapsto> number b @ ''. '' @ qtext b])"
proof -
  have "rx_match ic header_pattern (''**'' @ number b @ ''. '' @ qtext b @ ''**'' @ s) Map.empty
          (\<lambda>s g. Some (s, g)) = Some (s, [1 \<mapsto> number b @ ''. '' @ qtext b])"
    unfolding header_pattern_def by (rule run_header [OF _ assms]) simp
  then show ?thesis by (simp add: match_at_def block_header_def)
qed

lemma suffix_cases:
  assumes "xs @ a # ys = v @ u" "u \<noteq> []"
  shows "(\<exists>y. y \<noteq> [] \<and> u = y @ a # ys \<and> xs = v @ y) \<or> u = a # ys \<or> (\<exists>y. ys = y @ u)"
proof -
  from assms(1) consider (1) w where "xs = v @ w" "u = w @ a # ys"
    | (2) w where "xs @ w = v" "a # ys = w @ u"
    by (auto simp: append_eq_append_conv2)
  then show ?thesis
  proof cases
    case 1
    then show ?thesis by (cases "w = []") auto
  next
    case 2
    then show ?thesis by (cases w) auto
  qed
qed

lemma no_start_in_content:
  assumes wf: "plain_block b" and vu: "block_content (\<lambda>c. c) b = v @ u" "u \<noteq> []"
  shows "match_at ic (seq (lits ''**'' # Group 1 (seq (plus True Digit # rs1)) # rs2)) (u @ s) = None"
proof (rule match_at_None)
  fix s' g'
  let ?r = "seq (lits ''**'' # Group 1 (seq (plus True Digit # rs1)) # rs2)"
  let ?C1 = "nl @ option_line (\<lambda>c. c) CHR ''A'' (opt_a b) @ nl @
     option_line (\<lambda>c. c) CHR ''B'' (opt_b b) @ nl @
     option_line (\<lambda>c. c) CHR ''C'' (opt_c b) @ nl @
     option_line (\<lambda>c. c) CHR ''D'' (opt_d b) @ nl"
  let ?C2 = "''Correct Answer: '' @ [answer b]"
  have C: "block_content (\<lambda>c. c) b = ?C1 @ CHR ''*'' # CHR ''*'' # ?C2"
    by (simp add: block_content_def)
  have c1: "CHR ''*'' \<notin> set ?C1"
    using wf by (auto simp: plain_block_def plain_text_def option_line_def nl_def)
  have c2: "CHR ''*'' \<notin> set ?C2"
    using wf by (auto simp: plain_block_def)
  show "\<not> den ic ?r (u @ s) Map.empty s' g'"
  proof
    assume "den ic ?r (u @ s) Map.empty s' g'"
    then obtain d z where eq: "u @ s = CHR ''*'' # CHR ''*'' # d # z" and d: "is_digit d"
      using den_header_start by blast
    from vu(1) C have "?C1 @ CHR ''*'' # CHR ''*'' # ?C2 = v @ u" by simp
    from suffix_cases [OF this vu(2)]
    consider (a) y where "u = y @ CHR ''*'' # CHR ''*'' # ?C2" "y \<noteq> []" "?C1 = v @ y"
      | (b) "u = CHR ''*'' # CHR ''*'' # ?C2"
      | (c0) y where "CHR ''*'' # ?C2 = y @ u"
      by blast
    then consider (a) y where "u = y @ CHR ''*'' # CHR ''*'' # ?C2" "y \<noteq> []" "?C1 = v @ y"
      | (b) "u = CHR ''*'' # CHR ''*'' # ?C2"
      | (c) "u = CHR ''*'' # ?C2"
      | (d) y where "?C2 = y @ u"
    proof cases
      case (c0 y)
      then have "[] @ CHR ''*'' # ?C2 = y @ u" by simp
      from suffix_cases [OF this vu(2)] c0 show ?thesis
        using that(3,4) by blast
    qed
    then show False
    proof cases
      case a
      then have "hd u \<in> set ?C1" by (cases y) auto
      with c1 have "hd u \<noteq> CHR ''*''" by metis
      with eq a show False by (cases y) auto
    next
      case b
      with eq d show False by (auto simp: is_digit_def)
    next
      case c
      with eq show False by simp
    next
      case d
      with vu(2) have "hd u \<in> set ?C2" by (cases u) auto
      with c2 have "hd u \<noteq> CHR ''*''" by metis
      with eq vu(2) show False by (cases u) auto
    qed
  qed
qed

subsection \<open>\<^verbatim>\<open>app.py\<close> on a document\<close>

lemma header_pattern_shape:
  "\<exists>rs1 rs2. header_pattern = seq (lits ''**'' # Group 1 (seq (plus True Digit # rs1)) # rs2)"
  unfolding header_pattern_def by blast

lemma re_search_none:
  assumes "\<And>v u. w = v @ u \<Longrightarrow> match_at ic r u = None"
  shows "re_search ic r w = None"
proof -
  have "re_search ic r u = None" if "w = v @ u" for v u
    using that
  proof (induction u arbitrary: v)
    case Nil
    then show ?case using assms [of v "[]"] by simp
  next
    case (Cons c u)
    from Cons.prems have "match_at ic r (c # u) = None" using assms by blast
    moreover have "re_search ic r u = None" by (rule Cons.IH [of "v @ [c]"]) (use Cons.prems in simp)
    ultimately show ?case by simp
  qed
  from this [of "[]" w] show ?thesis by simp
qed

lemma parse_from_junk:
  assumes j: "list_all (\<lambda>c. \<not> is_digit c) j" and t: "list_all (\<lambda>c. \<not> is_digit c) (take 2 t)"
  shows "parse_from (j @ t) acc = parse_from t acc"
proof -
  obtain rs1 rs2
    where shape: "header_pattern = seq (lits ''**'' # Group 1 (seq (plus True Digit # rs1)) # rs2)"
    using header_pattern_shape by blast
  obtain p xs where s: "re_split False header_pattern t = Some p # xs"
    using re_split_first by blast
  have "re_split False header_pattern (j @ t) = Some (j @ p) # xs"
  proof (rule re_split_skip [OF _ s])
    show "match_at False header_pattern (u @ t) = None" if "j = v @ u" "u \<noteq> []" for v u
      unfolding shape by (rule no_start_in_junk [OF j t that])
  qed
  with s show ?thesis
    unfolding parse_from_def by (simp only: parse_range_head [of "Some (j @ p)" xs acc "Some p"])
qed

lemma parse_from_digit_free:
  assumes "list_all (\<lambda>c. \<not> is_digit c) t"
  shows "parse_from t acc = Inr acc"
proof -
  obtain rs1 rs2
    where shape: "header_pattern = seq (lits ''**'' # Group 1 (seq (plus True Digit # rs1)) # rs2)"
    using header_pattern_shape by blast
  have "re_search False header_pattern t = None"
  proof (rule re_search_none)
    fix v u
    assume vu: "t = v @ u"
    show "match_at False header_pattern u = None"
    proof (rule match_at_None)
      fix s' g'
      show "\<not> den False header_pattern u Map.empty s' g'"
      proof
        assume "den False header_pattern u Map.empty s' g'"
        then obtain d z where "u = CHR ''*'' # CHR ''*'' # d # z" "is_digit d"
          unfolding shape using den_header_start by blast
        with assms vu show False by simp
      qed
    qed
  qed
  then have "re_split False header_pattern t = [Some t]"
    by (subst re_split.simps) simp
  then show ?thesis
    unfolding parse_from_def by (simp only: parse_range_single)
qed

lemma parse_from_block:
  assumes wf: "plain_block b" and j: "list_all (\<lambda>c. \<not> is_digit c) j"
  shows "parse_from (j @ block_open (\<lambda>c. c) b @ rest) acc
         = parse_from rest (acc @ [question_of_block (\<lambda>c. c) b])"
proof -
  obtain rs1 rs2
    where shape: "header_pattern = seq (lits ''**'' # Group 1 (seq (plus True Digit # rs1)) # rs2)"
    using header_pattern_shape by blast
  let ?C = "block_content (\<lambda>c. c) b"
  let ?h = "number b @ ''. '' @ qtext b"
  obtain p xs where s: "re_split False header_pattern rest = Some p # xs"
    using re_split_first by blast
  have c: "re_split False header_pattern (?C @ rest) = Some (?C @ p) # xs"
  proof (rule re_split_skip [OF _ s])
    show "match_at False header_pattern (u @ rest) = None" if "?C = v @ u" "u \<noteq> []" for v u
      unfolding shape by (rule no_start_in_content [OF wf that])
  qed
  have hit: "match_at False header_pattern (block_header b @ ?C @ rest)
      = Some (length (block_header b), [1 \<mapsto> ?h])"
    by (rule match_at_header) (use wf in \<open>simp_all add: plain_block_def\<close>)
  have "re_split False header_pattern (j @ block_header b @ ?C @ rest)
      = Some j # ([1 \<mapsto> ?h] :: caps) 1 # re_split False header_pattern (?C @ rest)"
  proof (rule re_split_hit [OF _ hit])
    show "block_header b \<noteq> []" by (simp add: block_header_def)
    have t2: "list_all (\<lambda>c. \<not> is_digit c) (take 2 (block_header b @ ?C @ rest))"
      by (simp add: block_header_def is_digit_def)
    show "match_at False header_pattern (u @ block_header b @ ?C @ rest) = None"
      if "j = v @ u" "u \<noteq> []" for v u
      unfolding shape by (rule no_start_in_junk [OF j t2 that])
  qed
  then have sp: "re_split False header_pattern (j @ block_open (\<lambda>c. c) b @ rest)
      = Some j # Some ?h # Some (?C @ p) # xs"
    by (simp add: c block_open_split)
  have "parse_from (j @ block_open (\<lambda>c. c) b @ rest) acc
      = parse_loop (Some (?C @ p) # xs) (py_range (Suc 0) (length (Some (?C @ p) # xs)) 2)
          (acc @ [question_of_block (\<lambda>c. c) b])"
    unfolding parse_from_def sp parse_range_step parse_block_content [OF wf] by simp
  also have "\<dots> = parse_loop (Some p # xs) (py_range (Suc 0) (length (Some p # xs)) 2)
          (acc @ [question_of_block (\<lambda>c. c) b])"
    by (rule parse_range_head)
  finally show ?thesis by (simp only: parse_from_def s)
qed

lemma parse_from_document:
  assumes j: "list_all (\<lambda>c. \<not> is_digit c) j"
      and t: "list_all (\<lambda>c. \<not> is_digit c) (take 2 t)"
      and bs: "list_all (\<lambda>(b, k). plain_block b \<and> list_all (\<lambda>c. \<not> is_digit c) k) bs"
  shows "parse_from (j @ concat (map (\<lambda>(b, k). block_open (\<lambda>c. c) b @ k) bs) @ t) acc
         = parse_from t (acc @ map (\<lambda>(b, w). question_of_block (\<lambda>c. c) b) bs)"
  using j bs
proof (induction bs arbitrary: j acc)
  case Nil
  then show ?case using parse_from_junk [OF Nil.prems(1) t] by simp
next
  case (Cons bw bs)
  obtain b w where bw: "bw = (b, w)" by (cases bw)
  from Cons.prems bw have wf: "plain_block b" and w: "list_all (\<lambda>c. \<not> is_digit c) w"
      and bs: "list_all (\<lambda>(b, k). plain_block b \<and> list_all (\<lambda>c. \<not> is_digit c) k) bs"
    by simp_all
  let ?rest = "concat (map (\<lambda>(b, k). block_open (\<lambda>c. c) b @ k) bs) @ t"
  have "parse_from (j @ block_open (\<lambda>c. c) b @ w @ ?rest) acc
      = parse_from (w @ ?rest) (acc @ [question_of_block (\<lambda>c. c) b])"
    by (rule parse_from_block [OF wf Cons.prems(1)])
  also have "\<dots> = parse_from t ((acc @ [question_of_block (\<lambda>c. c) b])
      @ map (\<lambda>(b, w). question_of_block (\<lambda>c. c) b) bs)"
    by (rule Cons.IH [OF w bs])
  finally show ?case by (simp add: bw)
qed

lemma parse_questions_app_document:
  assumes j: "list_all (\<lambda>c. \<not> is_digit c) j"
      and t: "list_all (\<lambda>c. \<not> is_digit c) t"
      and bs: "list_all (\<lambda>(b, k). plain_block b \<and> list_all (\<lambda>c. \<not> is_digit c) k) bs"
  shows "parse_questions_app (j @ concat (map (\<lambda>(b, k). block_open (\<lambda>c. c) b @ k) bs) @ t)
         = Inr (map (\<lambda>(b, w). question_of_block (\<lambda>c. c) b) bs)"
proof -
  have t2: "list_all (\<lambda>c. \<not> is_digit c) (take 2 t)"
    using t by (metis append_take_drop_id list_all_append)
  show ?thesis
    unfolding parse_questions_app_from parse_from_document [OF j t2 bs]
    by (simp add: parse_from_digit_free [OF t])
qed

subsection \<open>A match needs every label\<close>

lemma has_label_here: "py_lower l = py_lower L \<Longrightarrow> has_label L (l # CHR '')'' # v)"
  by simp



lemma has_label_prefix: "has_label L u \<Longrightarrow> has_label L (u @ v)"
  by (induction L u rule: has_label.induct) auto







subsection \<open>Documents of plain blocks\<close>




lemma lower_matches: "cls_match True (Lit c) (py_lower c)"
  by (simp add: cls_match.simps(1))

lemma digit_free_append:
  "list_all (\<lambda>c. \<not> is_digit c) (a @ b)
   \<longleftrightarrow> list_all (\<lambda>c. \<not> is_digit c) a \<and> list_all (\<lambda>c. \<not> is_digit c) b"
  by simp

lemma fence_digit_free: "list_all (\<lambda>c. \<not> is_digit c) ''```''"
  by (simp add: is_digit_def)

section \<open>The claims\<close>





text \<open>
  C10.  A well-formed block whose marker \<^verbatim>\<open>**Correct Answer: X\<close> is not closed by
  \<^verbatim>\<open>**\<close> gives, in each of the three extractors, the same single dictionary as the
  block with the closing emphasis.
\<close>

theorem closing_emphasis_optional:
  assumes "plain_block b"
  shows "parse_questions_app (block_open (\<lambda>c. c) b) = Inr [question_of_block (\<lambda>c. c) b]
       \<and> parse_questions_app (block_text (\<lambda>c. c) b) = Inr [question_of_block (\<lambda>c. c) b]
       \<and> parse_questions_app1 (block_open (\<lambda>c. c) b) = [question_of_block (\<lambda>c. c) b]
       \<and> parse_questions_app1 (block_text (\<lambda>c. c) b) = [question_of_block (\<lambda>c. c) b]
       \<and> generate_questions_page (block_open (\<lambda>c. c) b) = [question_of_block (\<lambda>c. c) b]
       \<and> generate_questions_page (block_text (\<lambda>c. c) b) = [question_of_block (\<lambda>c. c) b]"
proof -
  have e: "list_all (\<lambda>c. \<not> is_digit c) []" "list_all (\<lambda>c. \<not> is_digit c) (take 2 [])"
    by simp_all
  have o: "list_all (\<lambda>(b, k). plain_block b \<and> list_all (\<lambda>c. \<not> is_digit c) k) [(b, [])]"
    using assms by simp
  have c: "list_all (\<lambda>(b, k). plain_block b \<and> list_all (\<lambda>c. \<not> is_digit c) k) [(b, ''**'')]"
    using assms by (simp add: is_digit_def)
  have n: "parse_questions_app1 [] = []"
    by (rule parse_questions_app1_digit_free) simp
  note app = parse_questions_app_document [OF e(1) e(1) o]
    parse_questions_app_document [OF e(1) e(1) c]
  note app1 = parse_questions_app1_document [OF id_matches e(1) e(2) o]
    parse_questions_app1_document [OF id_matches e(1) e(2) c]
  note app2 = generate_questions_page_document [OF id_matches e(1) e(1) o]
    generate_questions_page_document [OF id_matches e(1) e(1) c]
  show ?thesis
    using app app1 app2 by (simp add: n block_text_def)
qed

theorem closing_emphasis_optional_witness:
  "plain_block block_sum
   \<and> parse_questions_app (block_open (\<lambda>c. c) block_sum)
     = parse_questions_app (block_text (\<lambda>c. c) block_sum)
   \<and> parse_questions_app1 (block_open (\<lambda>c. c) block_sum)
     = parse_questions_app1 (block_text (\<lambda>c. c) block_sum)
   \<and> generate_questions_page (block_open (\<lambda>c. c) block_sum)
     = generate_questions_page (block_text (\<lambda>c. c) block_sum)
   \<and> block_open (\<lambda>c. c) block_sum
     = ''**1. What is 2+2?**'' @ nl @ ''A) 3'' @ nl @ ''B) 4'' @ nl @ ''C) 5'' @ nl @ ''D) 6''
       @ nl @ ''**Correct Answer: B''"
proof -
  have wf: "plain_block block_sum"
    by (simp add: plain_block_def plain_text_def block_sum_def is_space_def is_digit_def)
  show ?thesis using wf closing_emphasis_optional [OF wf]
    by (simp add: block_open_def option_line_def block_sum_def)
qed

text \<open>
  C1.  For the block of the example, \<^verbatim>\<open>**1. What is 2+2?**\<close> with the options 3, 4, 5
  and 6 and the answer B, each of the three extractors returns exactly one dictionary:
  its question text is \<^verbatim>\<open>1. What is 2+2?\<close>, its options are the lines
  \<^verbatim>\<open>A) 3\<close>, \<^verbatim>\<open>B) 4\<close>, \<^verbatim>\<open>C) 5\<close>, \<^verbatim>\<open>D) 6\<close>, that is the pairs (A, 3), (B, 4), (C, 5),
  (D, 6), and its answer is B.
\<close>

theorem example_block_extracted:
  "parse_questions_app
     (''**1. What is 2+2?**'' @ [CHR 0x0A] @ ''A) 3'' @ [CHR 0x0A] @ ''B) 4'' @ [CHR 0x0A] @
      ''C) 5'' @ [CHR 0x0A] @ ''D) 6'' @ [CHR 0x0A] @ ''**Correct Answer: B**'')
     = Inr [\<lparr>question_text = ''1. What is 2+2?'',
              options_text = ''A) 3'' @ [CHR 0x0A] @ ''B) 4'' @ [CHR 0x0A] @ ''C) 5'' @ [CHR 0x0A] @ ''D) 6'',
              correct_answer = ''B''\<rparr>]
   \<and> parse_questions_app1
     (''**1. What is 2+2?**'' @ [CHR 0x0A] @ ''A) 3'' @ [CHR 0x0A] @ ''B) 4'' @ [CHR 0x0A] @
      ''C) 5'' @ [CHR 0x0A] @ ''D) 6'' @ [CHR 0x0A] @ ''**Correct Answer: B**'')
     = [\<lparr>question_text = ''1. What is 2+2?'',
          options_text = ''A) 3'' @ [CHR 0x0A] @ ''B) 4'' @ [CHR 0x0A] @ ''C) 5'' @ [CHR 0x0A] @ ''D) 6'',
          correct_answer = ''B''\<rparr>]
   \<and> generate_questions_page
     (''**1. What is 2+2?**'' @ [CHR 0x0A] @ ''A) 3'' @ [CHR 0x0A] @ ''B) 4'' @ [CHR 0x0A] @
      ''C) 5'' @ [CHR 0x0A] @ ''D) 6'' @ [CHR 0x0A] @ ''**Correct Answer: B**'')
     = [\<lparr>question_text = ''1. What is 2+2?'',
          options_text = ''A) 3'' @ [CHR 0x0A] @ ''B) 4'' @ [CHR 0x0A] @ ''C) 5'' @ [CHR 0x0A] @ ''D) 6'',
          correct_answer = ''B''\<rparr>]
   \<and> spec_options
     \<lparr>question_text = ''1. What is 2+2?'',
      options_text = ''A) 3'' @ [CHR 0x0A] @ ''B) 4'' @ [CHR 0x0A] @ ''C) 5'' @ [CHR 0x0A] @ ''D) 6'',
      correct_answer = ''B''\<rparr>
     = [(''A'', ''3''), (''B'', ''4''), (''C'', ''5''), (''D'', ''6'')]"
  by code_simp


text \<open>
  C5.  The block of the example in small letters, \<^verbatim>\<open>a)\<close> to \<^verbatim>\<open>d)\<close> and
  \<^verbatim>\<open>**correct answer: b**\<close>: \<^verbatim>\<open>app.py\<close>, whose two inner patterns are compiled without
  \<^verbatim>\<open>re.IGNORECASE\<close>, returns no dictionary for it, although it returns one for the
  block in capitals; \<^verbatim>\<open>app1.py\<close> and \<^verbatim>\<open>app2.py\<close>, which set the flag, return one.
\<close>

theorem small_letters_dropped:
  "parse_questions_app
     (''**1. What is 2+2?**'' @ nl @ ''a) 3'' @ nl @ ''b) 4'' @ nl @ ''c) 5'' @ nl @ ''d) 6''
      @ nl @ ''**correct answer: b**'') = Inr []
   \<and> parse_questions_app
     (''**1. What is 2+2?**'' @ nl @ ''A) 3'' @ nl @ ''B) 4'' @ nl @ ''C) 5'' @ nl @ ''D) 6''
      @ nl @ ''**Correct Answer: B**'')
     = Inr [\<lparr>question_text = ''1. What is 2+2?'',
              options_text = ''A) 3'' @ nl @ ''B) 4'' @ nl @ ''C) 5'' @ nl @ ''D) 6'',
              correct_answer = ''B''\<rparr>]
   \<and> parse_questions_app1
     (''**1. What is 2+2?**'' @ nl @ ''a) 3'' @ nl @ ''b) 4'' @ nl @ ''c) 5'' @ nl @ ''d) 6''
      @ nl @ ''**correct answer: b**'')
     = [\<lparr>question_text = ''1. What is 2+2?'',
          options_text = ''a) 3'' @ nl @ ''b) 4'' @ nl @ ''c) 5'' @ nl @ ''d) 6'',
          correct_answer = ''b''\<rparr>]
   \<and> generate_questions_page
     (''**1. What is 2+2?**'' @ nl @ ''a) 3'' @ nl @ ''b) 4'' @ nl @ ''c) 5'' @ nl @ ''d) 6''
      @ nl @ ''**correct answer: b**'')
     = [\<lparr>question_text = ''1. What is 2+2?'',
          options_text = ''a) 3'' @ nl @ ''b) 4'' @ nl @ ''c) 5'' @ nl @ ''d) 6'',
          correct_answer = ''b''\<rparr>]"
  by code_simp

text \<open>
  C2.  The block of the example without its line \<^verbatim>\<open>D)\<close>: \<^verbatim>\<open>app.py\<close> returns a
  dictionary with the three options that are there; \<^verbatim>\<open>app1.py\<close> and \<^verbatim>\<open>app2.py\<close>,
  whose pattern asks for the four labels, return none.
\<close>

theorem three_options_partial_record:
  "parse_questions_app
     (''**1. What is 2+2?**'' @ nl @ ''A) 3'' @ nl @ ''B) 4'' @ nl @ ''C) 5'' @ nl @
      ''**Correct Answer: B**'')
     = Inr [\<lparr>question_text = ''1. What is 2+2?'',
              options_text = ''A) 3'' @ nl @ ''B) 4'' @ nl @ ''C) 5'',
              correct_answer = ''B''\<rparr>]
   \<and> spec_options \<lparr>question_text = ''1. What is 2+2?'',
              options_text = ''A) 3'' @ nl @ ''B) 4'' @ nl @ ''C) 5'',
              correct_answer = ''B''\<rparr>
     = [(''A'', ''3''), (''B'', ''4''), (''C'', ''5'')]
   \<and> parse_questions_app1
     (''**1. What is 2+2?**'' @ nl @ ''A) 3'' @ nl @ ''B) 4'' @ nl @ ''C) 5'' @ nl @
      ''**Correct Answer: B**'') = []
   \<and> generate_questions_page
     (''**1. What is 2+2?**'' @ nl @ ''A) 3'' @ nl @ ''B) 4'' @ nl @ ''C) 5'' @ nl @
      ''**Correct Answer: B**'') = []"
  by code_simp






end
